theory Spec2Isabelle
  imports Main "HOL-Library.Word"
begin

section \<open>Data model\<close>

text \<open>
  The embedding follows \<^verbatim>\<open>log.go\<close>, \<^verbatim>\<open>utils.go\<close> and \<^verbatim>\<open>tcgeventdata.go\<close>.
  The byte source is a \<^verbatim>\<open>bytes.Reader\<close> (the source behind
  \<^verbatim>\<open>NewLogFromByteReader\<close>): an immutable buffer and a read offset.
\<close>

type_synonym byte = "8 word"
type_synonym AlgorithmId = "16 word"
type_synonym PCRIndex = "32 word"
type_synonym EventType = "32 word"
type_synonym Digest = "byte list"
type_synonym DigestMap = "AlgorithmId \<Rightarrow> Digest option"

datatype Spec = SpecUnknown | SpecPCClient | SpecEFI_1_2 | SpecEFI_2

text \<open>
  Modelled from the spec: the constants of \<^verbatim>\<open>AlgorithmId\<close> are declared in a file
  that is not part of the sources at hand; section 3 of the specification gives
  SHA-1 = 0x0004, SHA-256 = 0x000B, SHA-384 = 0x000C, SHA-512 = 0x000D.
\<close>

definition AlgorithmSha1 :: AlgorithmId where "AlgorithmSha1 = 0x0004"
definition AlgorithmSha256 :: AlgorithmId where "AlgorithmSha256 = 0x000B"
definition AlgorithmSha384 :: AlgorithmId where "AlgorithmSha384 = 0x000C"
definition AlgorithmSha512 :: AlgorithmId where "AlgorithmSha512 = 0x000D"

text \<open>
  Modelled from the spec: the constants of \<^verbatim>\<open>EventType\<close> are declared in a file that
  is not part of the sources at hand; the specification names them as the TCG-defined
  set, whose values are used here.
\<close>

definition EventTypeNoAction :: EventType where "EventTypeNoAction = 0x00000003"
definition EventTypeSeparator :: EventType where "EventTypeSeparator = 0x00000004"
definition EventTypeAction :: EventType where "EventTypeAction = 0x00000005"
definition EventTypeEFIVariableDriverConfig :: EventType where
  "EventTypeEFIVariableDriverConfig = 0x80000001"
definition EventTypeEFIVariableBoot :: EventType where "EventTypeEFIVariableBoot = 0x80000002"
definition EventTypeEFIBootServicesApplication :: EventType where
  "EventTypeEFIBootServicesApplication = 0x80000003"
definition EventTypeEFIBootServicesDriver :: EventType where
  "EventTypeEFIBootServicesDriver = 0x80000004"
definition EventTypeEFIRuntimeServicesDriver :: EventType where
  "EventTypeEFIRuntimeServicesDriver = 0x80000005"
definition EventTypeEFIGPTEvent :: EventType where "EventTypeEFIGPTEvent = 0x80000006"
definition EventTypeEFIAction :: EventType where "EventTypeEFIAction = 0x80000007"
definition EventTypeEFIVariableAuthority :: EventType where
  "EventTypeEFIVariableAuthority = 0x800000E0"

subsection \<open>Errors and panics\<close>

text \<open>
  Every error value the code can hand back is a constructor. \<open>LogReadError\<close> is the
  \<^verbatim>\<open>fmt.Errorf("error when reading from log stream (%v)", origErr)\<close> of
  \<^verbatim>\<open>wrapLogReadError\<close>; \<open>InconsistentLog\<close> is the error of a failed log;
  \<open>ExternalError\<close> stands for an error made by a decoder whose source is absent.
\<close>

datatype error =
    EOF
  | ErrUnexpectedEOF
  | LogReadError error
  | PCRIndexOutOfRange PCRIndex
  | UnrecognizedAlgorithm AlgorithmId
  | DuplicateDigest AlgorithmId
  | MissingDigest AlgorithmId
  | InconsistentLog
  | InvalidSpecIdEventError string
  | ExternalError string

datatype panic = UnhandledAlgorithm | IndexOutOfRange | TypeAssertion

datatype 'a result = Return 'a | Fail error | Panicked panic

subsection \<open>The byte reader\<close>

record reader =
  buf :: "byte list"
  off :: nat

definition NewReader :: "byte list \<Rightarrow> reader" where
  "NewReader b = \<lparr>buf = b, off = 0\<rparr>"

text \<open>Bytes not yet read.\<close>

definition remaining :: "reader \<Rightarrow> byte list" where
  "remaining rd = drop (off rd) (buf rd)"

text \<open>
  \<^verbatim>\<open>(*bytes.Reader).Read(b)\<close> with \<open>len(b) = n\<close>: at the end of the buffer it
  returns \<^verbatim>\<open>io.EOF\<close> (also for \<open>n = 0\<close>); otherwise it copies what is there, at most
  \<open>n\<close> bytes, and advances. The result is the number of bytes copied and the bytes.
\<close>

definition Read :: "reader \<Rightarrow> nat \<Rightarrow> (error + byte list) \<times> reader" where
  "Read rd n =
     (if length (buf rd) \<le> off rd then (Inl EOF, rd)
      else (Inr (take n (remaining rd)), rd\<lparr>off := off rd + min n (length (remaining rd))\<rparr>))"

text \<open>
  \<^verbatim>\<open>io.ReadFull(r, buf)\<close> with \<open>len(buf) = n\<close>: nothing is read for \<open>n = 0\<close>; no byte
  at all is \<^verbatim>\<open>io.EOF\<close>; fewer than \<open>n\<close> bytes is \<^verbatim>\<open>io.ErrUnexpectedEOF\<close>, with
  the available bytes consumed.
\<close>

definition ReadFull :: "reader \<Rightarrow> nat \<Rightarrow> (error + byte list) \<times> reader" where
  "ReadFull rd n =
     (if n = 0 then (Inr [], rd)
      else if length (buf rd) \<le> off rd then (Inl EOF, rd)
      else if length (remaining rd) < n then (Inl ErrUnexpectedEOF, rd\<lparr>off := length (buf rd)\<rparr>)
      else (Inr (take n (remaining rd)), rd\<lparr>off := off rd + n\<rparr>))"

text \<open>Little-endian decoding, as \<^verbatim>\<open>binary.LittleEndian\<close> does it.\<close>

fun le_word :: "byte list \<Rightarrow> 'a::len word" where
  "le_word [] = 0"
| "le_word (b # bs) = ucast b + 256 * le_word bs"

text \<open>\<^verbatim>\<open>binary.Read(r, binary.LittleEndian, &x)\<close> for a 4-byte, 2-byte and 1-byte \<open>x\<close>.\<close>

definition readUint32 :: "reader \<Rightarrow> (error + 32 word) \<times> reader" where
  "readUint32 rd = (case ReadFull rd 4 of
      (Inl err, rd') \<Rightarrow> (Inl err, rd')
    | (Inr bs, rd') \<Rightarrow> (Inr (le_word bs), rd'))"

definition readUint16 :: "reader \<Rightarrow> (error + 16 word) \<times> reader" where
  "readUint16 rd = (case ReadFull rd 2 of
      (Inl err, rd') \<Rightarrow> (Inl err, rd')
    | (Inr bs, rd') \<Rightarrow> (Inr (le_word bs), rd'))"

definition readUint8 :: "reader \<Rightarrow> (error + 8 word) \<times> reader" where
  "readUint8 rd = (case ReadFull rd 1 of
      (Inl err, rd') \<Rightarrow> (Inl err, rd')
    | (Inr bs, rd') \<Rightarrow> (Inr (le_word bs), rd'))"

subsection \<open>Hash registry\<close>

text \<open>
  The four digest functions of Go's standard library are parameters of the model.
\<close>

record crypto =
  sha1_Sum :: "byte list \<Rightarrow> byte list"
  sha256_Sum256 :: "byte list \<Rightarrow> byte list"
  sha512_Sum384 :: "byte list \<Rightarrow> byte list"
  sha512_Sum512 :: "byte list \<Rightarrow> byte list"

text \<open>\<^verbatim>\<open>knownAlgorithms\<close>: the digest length of each supported algorithm.\<close>

definition knownAlgorithms :: "AlgorithmId \<Rightarrow> 16 word option" where
  "knownAlgorithms alg =
     (if alg = AlgorithmSha1 then Some 20
      else if alg = AlgorithmSha256 then Some 32
      else if alg = AlgorithmSha384 then Some 48
      else if alg = AlgorithmSha512 then Some 64
      else None)"

text \<open>The index expression \<^verbatim>\<open>knownAlgorithms[alg]\<close>: zero for a missing key.\<close>

definition knownAlgorithmSize :: "AlgorithmId \<Rightarrow> 16 word" where
  "knownAlgorithmSize alg = (case knownAlgorithms alg of None \<Rightarrow> 0 | Some n \<Rightarrow> n)"

definition isKnownAlgorithm :: "AlgorithmId \<Rightarrow> bool" where
  "isKnownAlgorithm alg = (knownAlgorithms alg \<noteq> None)"

text \<open>
  \<^verbatim>\<open>zeroDigests\<close>: a table with the four supported algorithms as keys; a lookup of
  any other key gives Go's nil slice, which is the empty list here.
\<close>

definition zeroDigests :: "AlgorithmId \<Rightarrow> Digest option" where
  "zeroDigests alg = (case knownAlgorithms alg of
      None \<Rightarrow> None
    | Some n \<Rightarrow> Some (replicate (unat n) 0))"

definition zeroDigest :: "AlgorithmId \<Rightarrow> Digest" where
  "zeroDigest alg = (case zeroDigests alg of None \<Rightarrow> [] | Some z \<Rightarrow> z)"

text \<open>
  \<^verbatim>\<open>hash\<close> of \<^verbatim>\<open>utils.go\<close> (called \<^verbatim>\<open>hashSum\<close> at its call site in
  \<^verbatim>\<open>log.go\<close>): the default branch of the switch panics.
\<close>

definition hash :: "crypto \<Rightarrow> byte list \<Rightarrow> AlgorithmId \<Rightarrow> panic + byte list" where
  "hash H data alg =
     (if alg = AlgorithmSha1 then Inr (sha1_Sum H data)
      else if alg = AlgorithmSha256 then Inr (sha256_Sum256 H data)
      else if alg = AlgorithmSha384 then Inr (sha512_Sum384 H data)
      else if alg = AlgorithmSha512 then Inr (sha512_Sum512 H data)
      else Inl UnhandledAlgorithm)"

definition isPCRIndexInRange :: "PCRIndex \<Rightarrow> bool" where
  "isPCRIndexInRange index = (index \<le> 31)"

text \<open>\<^verbatim>\<open>separatorEventErrorValue\<close> written little-endian into four bytes.\<close>

definition separatorEventErrorValue :: "32 word" where
  "separatorEventErrorValue = 1"

definition PutUint32 :: "32 word \<Rightarrow> byte list" where
  "PutUint32 v = [ucast v, ucast (drop_bit 8 v), ucast (drop_bit 16 v), ucast (drop_bit 24 v)]"

definition errorValue :: "byte list" where
  "errorValue = PutUint32 separatorEventErrorValue"

text \<open>
  \<^verbatim>\<open>isDigestOfSeparatorErrorValue\<close>: \<^verbatim>\<open>bytes.Compare\<close> is equality of contents.
\<close>

definition isDigestOfSeparatorErrorValue :: "crypto \<Rightarrow> Digest \<Rightarrow> AlgorithmId \<Rightarrow> panic + bool" where
  "isDigestOfSeparatorErrorValue H digest alg =
     (case hash H errorValue alg of
        Inl p \<Rightarrow> Inl p
      | Inr h \<Rightarrow> Inr (digest = h))"

definition wrapLogReadError :: "error \<Rightarrow> bool \<Rightarrow> error" where
  "wrapLogReadError origErr partial =
     (if origErr = EOF then (if \<not> partial then origErr else LogReadError ErrUnexpectedEOF)
      else LogReadError origErr)"

definition wrapPCRIndexOutOfRangeError :: "PCRIndex \<Rightarrow> error" where
  "wrapPCRIndexOutOfRangeError pcrIndex = PCRIndexOutOfRange pcrIndex"


subsection \<open>Events and event data\<close>

record EFISpecIdEventAlgorithmSize =
  AlgorithmId :: AlgorithmId
  DigestSize :: "16 word"

record SpecIdEventData =
  data :: "byte list"
  Spec :: Spec
  PlatformClass :: "32 word"
  SpecVersionMinor :: "8 word"
  SpecVersionMajor :: "8 word"
  SpecErrata :: "8 word"
  UintnSize :: "8 word"
  DigestSizes :: "EFISpecIdEventAlgorithmSize list"
  VendorInfo :: "byte list"

text \<open>
  The variants of the \<^verbatim>\<open>EventData\<close> interface. \<open>BrokenEventData\<close> and
  \<open>OpaqueEventData\<close> are used by \<^verbatim>\<open>log.go\<close> and declared elsewhere;
  \<open>ExternalEventData\<close> stands for the variants built by decoders whose source is absent
  (a tag and the raw bytes).
\<close>

datatype EventData =
    SpecIdEvent SpecIdEventData
  | UnknownNoActionEventData "byte list"
  | AsciiStringEventData "byte list"
  | SeparatorEventData "byte list" bool
  | BrokenEventData "byte list" error
  | OpaqueEventData "byte list"
  | ExternalEventData string "byte list"

record Event =
  Index :: "64 word"
  PCRIndex :: PCRIndex
  EventType :: EventType
  Digests :: DigestMap
  Data :: EventData

record LogOptions =
  EnableGrub :: bool

text \<open>
  The decoders that \<^verbatim>\<open>tcgeventdata.go\<close> calls and whose source is absent are
  parameters of the model. A helper of \<^verbatim>\<open>decodeSpecIdEvent\<close> gets the reader and
  the event data it fills in; the other decoders return their data, the count of trailing
  bytes and their error.
\<close>

record decoders =
  parseEFI_1_2_SpecIdEvent :: "reader \<Rightarrow> SpecIdEventData \<Rightarrow> error + SpecIdEventData"
  parseEFI_2_SpecIdEvent :: "reader \<Rightarrow> SpecIdEventData \<Rightarrow> error + SpecIdEventData"
  decodeBIMReferenceManifestEvent :: "reader \<Rightarrow> byte list \<Rightarrow> EventData option \<times> error option"
  decodeStartupLocalityEvent :: "reader \<Rightarrow> byte list \<Rightarrow> EventData option \<times> error option"
  decodeEventDataEFIVariable :: "byte list \<Rightarrow> EventType \<Rightarrow> EventData option \<times> int \<times> error option"
  decodeEventDataEFIImageLoad :: "byte list \<Rightarrow> EventData option \<times> int \<times> error option"
  decodeEventDataEFIGPT :: "byte list \<Rightarrow> EventData option \<times> int \<times> error option"
  decodeEventDataGRUB :: "PCRIndex \<Rightarrow> EventType \<Rightarrow> byte list \<Rightarrow> (EventData \<times> int) option"

section \<open>Event data decoders (\<^verbatim>\<open>tcgeventdata.go\<close>)\<close>

text \<open>The \<^verbatim>\<open>Error()\<close> text of the two errors that \<^verbatim>\<open>io.ReadFull\<close> gives.\<close>

definition Error_io :: "error \<Rightarrow> string" where
  "Error_io e = (if e = EOF then ''EOF'' else ''unexpected EOF'')"

definition wrapSpecIdEventReadError :: "error \<Rightarrow> error" where
  "wrapSpecIdEventReadError origErr =
     (if origErr = EOF then InvalidSpecIdEventError ''not enough data''
      else InvalidSpecIdEventError (Error_io origErr))"

definition parsePCClientSpecIdEvent :: "reader \<Rightarrow> SpecIdEventData \<Rightarrow> error + SpecIdEventData" where
  "parsePCClientSpecIdEvent stream eventData =
     (case readUint8 stream of
        (Inl err, _) \<Rightarrow> Inl (wrapSpecIdEventReadError err)
      | (Inr vendorInfoSize, stream1) \<Rightarrow>
     (case ReadFull stream1 (unat vendorInfoSize) of
        (Inl err, _) \<Rightarrow> Inl (wrapSpecIdEventReadError err)
      | (Inr vendorInfo, _) \<Rightarrow>
          Inr (eventData\<lparr>Spec := SpecPCClient, VendorInfo := vendorInfo\<rparr>)))"

text \<open>
  Modelled from the spec: \<^verbatim>\<open>parseEFI_2_SpecIdEvent\<close> is not part of the sources at
  hand. By section 4.2 of the specification an EFI 2 Spec ID event is the common header,
  a 32-bit \<open>numberOfAlgorithms\<close>, that many pairs of a 16-bit algorithm identifier and
  a 16-bit digest size, a one-byte \<open>vendorInfoSize\<close> and the vendor information; the
  pairs populate \<open>DigestSizes\<close>. This definition is used to run the model on concrete
  logs; the theorems take the parser as a parameter.
\<close>

fun readAlgorithmSizes ::
  "nat \<Rightarrow> reader \<Rightarrow> (error + EFISpecIdEventAlgorithmSize list) \<times> reader" where
  "readAlgorithmSizes 0 rd = (Inr [], rd)"
| "readAlgorithmSizes (Suc n) rd =
     (case readUint16 rd of
        (Inl err, rd1) \<Rightarrow> (Inl err, rd1)
      | (Inr alg, rd1) \<Rightarrow>
     (case readUint16 rd1 of
        (Inl err, rd2) \<Rightarrow> (Inl err, rd2)
      | (Inr digestSize, rd2) \<Rightarrow>
     (case readAlgorithmSizes n rd2 of
        (Inl err, rd3) \<Rightarrow> (Inl err, rd3)
      | (Inr rest, rd3) \<Rightarrow> (Inr (\<lparr>AlgorithmId = alg, DigestSize = digestSize\<rparr> # rest), rd3))))"

definition specParseEFI_2_SpecIdEvent :: "reader \<Rightarrow> SpecIdEventData \<Rightarrow> error + SpecIdEventData" where
  "specParseEFI_2_SpecIdEvent stream eventData =
     (case readUint32 stream of
        (Inl err, _) \<Rightarrow> Inl (wrapSpecIdEventReadError err)
      | (Inr numberOfAlgorithms, stream1) \<Rightarrow>
     (case readAlgorithmSizes (unat numberOfAlgorithms) stream1 of
        (Inl err, _) \<Rightarrow> Inl (wrapSpecIdEventReadError err)
      | (Inr sizes, stream2) \<Rightarrow>
     (case readUint8 stream2 of
        (Inl err, _) \<Rightarrow> Inl (wrapSpecIdEventReadError err)
      | (Inr vendorInfoSize, stream3) \<Rightarrow>
     (case ReadFull stream3 (unat vendorInfoSize) of
        (Inl err, _) \<Rightarrow> Inl (wrapSpecIdEventReadError err)
      | (Inr vendorInfo, _) \<Rightarrow>
          Inr (eventData\<lparr>Spec := SpecEFI_2, DigestSizes := sizes,
                         VendorInfo := vendorInfo\<rparr>)))))"

text \<open>
  \<^verbatim>\<open>decodeSpecIdEvent\<close>: the common header is eight bytes (a 32-bit platform class
  and four single bytes), read in one \<^verbatim>\<open>binary.Read\<close>.
\<close>

definition decodeSpecIdEvent ::
  "reader \<Rightarrow> byte list \<Rightarrow> (reader \<Rightarrow> SpecIdEventData \<Rightarrow> error + SpecIdEventData)
     \<Rightarrow> error + SpecIdEventData" where
  "decodeSpecIdEvent stream dat helper =
     (case ReadFull stream 8 of
        (Inl err, _) \<Rightarrow> Inl (wrapSpecIdEventReadError err)
      | (Inr common, stream1) \<Rightarrow>
          helper stream1
            \<lparr>data = dat, Spec = SpecUnknown,
             PlatformClass = le_word (take 4 common),
             SpecVersionMinor = common ! 4,
             SpecVersionMajor = common ! 5,
             SpecErrata = common ! 6,
             UintnSize = common ! 7,
             DigestSizes = [], VendorInfo = []\<rparr>)"

text \<open>The 16-byte signatures: fifteen ASCII characters and a zero byte.\<close>

definition sig_SpecIdEvent00 :: "byte list" where
  "sig_SpecIdEvent00 =
     [0x53,0x70,0x65,0x63,0x20,0x49,0x44,0x20,0x45,0x76,0x65,0x6E,0x74,0x30,0x30,0x00]"
definition sig_SpecIdEvent02 :: "byte list" where
  "sig_SpecIdEvent02 =
     [0x53,0x70,0x65,0x63,0x20,0x49,0x44,0x20,0x45,0x76,0x65,0x6E,0x74,0x30,0x32,0x00]"
definition sig_SpecIdEvent03 :: "byte list" where
  "sig_SpecIdEvent03 =
     [0x53,0x70,0x65,0x63,0x20,0x49,0x44,0x20,0x45,0x76,0x65,0x6E,0x74,0x30,0x33,0x00]"
definition sig_SP800_155 :: "byte list" where
  "sig_SP800_155 =
     [0x53,0x50,0x38,0x30,0x30,0x2D,0x31,0x35,0x35,0x20,0x45,0x76,0x65,0x6E,0x74,0x00]"
definition sig_StartupLocality :: "byte list" where
  "sig_StartupLocality =
     [0x53,0x74,0x61,0x72,0x74,0x75,0x70,0x4C,0x6F,0x63,0x61,0x6C,0x69,0x74,0x79,0x00]"

text \<open>
  The result of a decoder is \<open>(out, trailingBytes, err)\<close>: \<open>out\<close> is \<open>None\<close> for Go's
  nil, \<open>err\<close> is \<open>None\<close> for a nil error.
\<close>

definition ofSpecId :: "error + SpecIdEventData \<Rightarrow> EventData option \<times> int \<times> error option" where
  "ofSpecId res = (case res of
      Inl e \<Rightarrow> (None, 0, Some e)
    | Inr d \<Rightarrow> (Some (SpecIdEvent d), 0, None))"

definition decodeEventDataNoAction ::
  "decoders \<Rightarrow> byte list \<Rightarrow> EventData option \<times> int \<times> error option" where
  "decodeEventDataNoAction X dat =
     (case ReadFull (NewReader dat) 16 of
        (Inl err, _) \<Rightarrow> (None, 0, Some err)
      | (Inr signature, stream) \<Rightarrow>
          if signature = sig_SpecIdEvent00 then
            ofSpecId (decodeSpecIdEvent stream dat parsePCClientSpecIdEvent)
          else if signature = sig_SpecIdEvent02 then
            ofSpecId (decodeSpecIdEvent stream dat (parseEFI_1_2_SpecIdEvent X))
          else if signature = sig_SpecIdEvent03 then
            ofSpecId (decodeSpecIdEvent stream dat (parseEFI_2_SpecIdEvent X))
          else if signature = sig_SP800_155 then
            (case decodeBIMReferenceManifestEvent X stream dat of (d, e) \<Rightarrow> (d, 0, e))
          else if signature = sig_StartupLocality then
            (case decodeStartupLocalityEvent X stream dat of (d, e) \<Rightarrow> (d, 0, e))
          else (Some (UnknownNoActionEventData dat), 0, None))"

definition decodeEventDataAction :: "byte list \<Rightarrow> EventData option \<times> int \<times> error option" where
  "decodeEventDataAction dat = (Some (AsciiStringEventData dat), 0, None)"

definition decodeEventDataSeparator ::
  "byte list \<Rightarrow> bool \<Rightarrow> EventData option \<times> int \<times> error option" where
  "decodeEventDataSeparator dat isError = (Some (SeparatorEventData dat isError), 0, None)"

definition decodeEventDataTCG ::
  "decoders \<Rightarrow> EventType \<Rightarrow> byte list \<Rightarrow> bool \<Rightarrow> EventData option \<times> int \<times> error option" where
  "decodeEventDataTCG X eventType dat hasDigestOfSeparatorError =
     (if eventType = EventTypeNoAction then decodeEventDataNoAction X dat
      else if eventType = EventTypeSeparator then
        decodeEventDataSeparator dat hasDigestOfSeparatorError
      else if eventType = EventTypeAction \<or> eventType = EventTypeEFIAction then
        decodeEventDataAction dat
      else if eventType = EventTypeEFIVariableDriverConfig \<or> eventType = EventTypeEFIVariableBoot
              \<or> eventType = EventTypeEFIVariableAuthority then
        decodeEventDataEFIVariable X dat eventType
      else if eventType = EventTypeEFIBootServicesApplication
              \<or> eventType = EventTypeEFIBootServicesDriver
              \<or> eventType = EventTypeEFIRuntimeServicesDriver then
        decodeEventDataEFIImageLoad X dat
      else if eventType = EventTypeEFIGPTEvent then decodeEventDataEFIGPT X dat
      else (None, 0, None))"

text \<open>
  Modelled from the spec: \<^verbatim>\<open>decodeEventData\<close>, which both stream readers call, is
  not part of the sources at hand. By section 4.2 of the specification the GRUB decoder is
  tried only when \<open>EnableGrub\<close> is set and only for PCR 8 or 9; a decoder never fails the
  parse: its error is returned inside a \<open>Broken\<close> variant that carries the original
  bytes and the error; event types without a decoder give the \<open>Opaque\<close> variant.
\<close>

definition decodeEventData ::
  "decoders \<Rightarrow> PCRIndex \<Rightarrow> EventType \<Rightarrow> byte list \<Rightarrow> LogOptions \<Rightarrow> bool \<Rightarrow> EventData \<times> int" where
  "decodeEventData X pcrIndex eventType dat options hasDigestOfSeparatorError =
     (case (if EnableGrub options \<and> (pcrIndex = 8 \<or> pcrIndex = 9)
            then decodeEventDataGRUB X pcrIndex eventType dat else None) of
        Some res \<Rightarrow> res
      | None \<Rightarrow>
          (case decodeEventDataTCG X eventType dat hasDigestOfSeparatorError of
             (_, _, Some err) \<Rightarrow> (BrokenEventData dat err, 0)
           | (Some out, n, None) \<Rightarrow> (out, n)
           | (None, _, None) \<Rightarrow> (OpaqueEventData dat, 0)))"


section \<open>Stream readers (\<^verbatim>\<open>log.go\<close>)\<close>

record stream_1_2 =
  r :: reader
  options :: LogOptions

record stream_2 = stream_1_2 +
  algSizes :: "EFISpecIdEventAlgorithmSize list"
  readFirstEvent :: bool

text \<open>The index expression \<^verbatim>\<open>digests[alg]\<close>: Go's nil slice for a missing key.\<close>

definition digestOf :: "DigestMap \<Rightarrow> AlgorithmId \<Rightarrow> Digest" where
  "digestOf digests alg = (case digests alg of None \<Rightarrow> [] | Some d \<Rightarrow> d)"

text \<open>
  \<^verbatim>\<open>stream_1_2.readNextEvent\<close>. The digest is read with a plain \<^verbatim>\<open>Read\<close> into a
  zeroed buffer of 20 bytes, so a short read leaves zero bytes at its end. The reader is
  returned in the state in which the call leaves it, also on an error.
\<close>

definition stream_1_2_readNextEvent ::
  "decoders \<Rightarrow> crypto \<Rightarrow> stream_1_2 \<Rightarrow> (Event \<times> int) result \<times> stream_1_2" where
  "stream_1_2_readNextEvent X H s =
     (case readUint32 (r s) of
        (Inl err, r1) \<Rightarrow> (Fail (wrapLogReadError err False), s\<lparr>r := r1\<rparr>)
      | (Inr pcrIndex, r1) \<Rightarrow>
     if \<not> isPCRIndexInRange pcrIndex
     then (Fail (wrapPCRIndexOutOfRangeError pcrIndex), s\<lparr>r := r1\<rparr>)
     else
     (case readUint32 r1 of
        (Inl err, r2) \<Rightarrow> (Fail (wrapLogReadError err True), s\<lparr>r := r2\<rparr>)
      | (Inr eventType, r2) \<Rightarrow>
     (case Read r2 (unat (knownAlgorithmSize AlgorithmSha1)) of
        (Inl err, r3) \<Rightarrow> (Fail (wrapLogReadError err True), s\<lparr>r := r3\<rparr>)
      | (Inr bs, r3) \<Rightarrow>
     let digest = bs @ replicate (unat (knownAlgorithmSize AlgorithmSha1) - length bs) 0;
         digests = (\<lambda>alg. None)(AlgorithmSha1 := Some digest)
     in
     (case readUint32 r3 of
        (Inl err, r4) \<Rightarrow> (Fail (wrapLogReadError err True), s\<lparr>r := r4\<rparr>)
      | (Inr eventSize, r4) \<Rightarrow>
     (case ReadFull r4 (unat eventSize) of
        (Inl err, r5) \<Rightarrow> (Fail (wrapLogReadError err True), s\<lparr>r := r5\<rparr>)
      | (Inr event, r5) \<Rightarrow>
     (case isDigestOfSeparatorErrorValue H digest AlgorithmSha1 of
        Inl p \<Rightarrow> (Panicked p, s\<lparr>r := r5\<rparr>)
      | Inr isError \<Rightarrow>
     (case decodeEventData X pcrIndex eventType event (options s) isError of
        (dat, trailing) \<Rightarrow>
          (Return (\<lparr>Index = 0, PCRIndex = pcrIndex, EventType = eventType,
                    Digests = digests, Data = dat\<rparr>, trailing),
           s\<lparr>r := r5\<rparr>))))))))"

text \<open>
  The digest loop of \<^verbatim>\<open>stream_2.readNextEvent\<close> (lines 151 to 181), with the number
  of iterations left as the recursion argument. The inner loop over \<open>algSizes\<close> finds the
  first entry with the algorithm identifier that was read.
\<close>

fun readDigests ::
  "EFISpecIdEventAlgorithmSize list \<Rightarrow> nat \<Rightarrow> reader \<Rightarrow> DigestMap \<Rightarrow> (error + DigestMap) \<times> reader" where
  "readDigests sizes 0 rd digests = (Inr digests, rd)"
| "readDigests sizes (Suc n) rd digests =
     (case readUint16 rd of
        (Inl err, rd1) \<Rightarrow> (Inl (wrapLogReadError err True), rd1)
      | (Inr algorithmId, rd1) \<Rightarrow>
     (case find (\<lambda>a. AlgorithmId a = algorithmId) sizes of
        None \<Rightarrow> (Inl (UnrecognizedAlgorithm algorithmId), rd1)
      | Some a \<Rightarrow>
     (case ReadFull rd1 (unat (DigestSize a)) of
        (Inl err, rd2) \<Rightarrow> (Inl (wrapLogReadError err True), rd2)
      | (Inr digest, rd2) \<Rightarrow>
          if digests algorithmId \<noteq> None then (Inl (DuplicateDigest algorithmId), rd2)
          else readDigests sizes n rd2 (digests(algorithmId := Some digest)))))"

text \<open>The loop of lines 183 to 189: the first advertised algorithm without a digest.\<close>

definition missingDigest :: "EFISpecIdEventAlgorithmSize list \<Rightarrow> DigestMap \<Rightarrow> AlgorithmId option" where
  "missingDigest sizes digests =
     map_option AlgorithmId (find (\<lambda>a. digests (AlgorithmId a) = None) sizes)"

text \<open>The loop of lines 191 to 196: every key that is not a known algorithm is deleted.\<close>

definition deleteUnknown :: "DigestMap \<Rightarrow> DigestMap" where
  "deleteUnknown digests = (\<lambda>alg. if isKnownAlgorithm alg then digests alg else None)"

text \<open>
  The end of \<^verbatim>\<open>stream_2.readNextEvent\<close> (lines 198 to 216), after the digest
  list: the event size and the event data are read and the event is built. The arguments
  of \<^verbatim>\<open>decodeEventData\<close> are evaluated before the call: \<^verbatim>\<open>s.algSizes[0]\<close>
  panics on an empty list, and \<^verbatim>\<open>isDigestOfSeparatorErrorValue\<close> panics in
  \<^verbatim>\<open>hash\<close> on an algorithm that \<^verbatim>\<open>hash\<close> does not handle.
\<close>

definition stream_2_readEventData ::
  "decoders \<Rightarrow> crypto \<Rightarrow> stream_2 \<Rightarrow> PCRIndex \<Rightarrow> EventType \<Rightarrow> DigestMap \<Rightarrow> reader
     \<Rightarrow> (Event \<times> int) result \<times> stream_2" where
  "stream_2_readEventData X H s pcrIndex eventType digests r4 =
     (case readUint32 r4 of
        (Inl err, r5) \<Rightarrow> (Fail (wrapLogReadError err True), s\<lparr>r := r5\<rparr>)
      | (Inr eventSize, r5) \<Rightarrow>
     (case ReadFull r5 (unat eventSize) of
        (Inl err, r6) \<Rightarrow> (Fail (wrapLogReadError err True), s\<lparr>r := r6\<rparr>)
      | (Inr event, r6) \<Rightarrow>
     (case algSizes s of
        [] \<Rightarrow> (Panicked IndexOutOfRange, s\<lparr>r := r6\<rparr>)
      | a0 # _ \<Rightarrow>
     (case isDigestOfSeparatorErrorValue H (digestOf digests (AlgorithmId a0)) (AlgorithmId a0) of
        Inl p \<Rightarrow> (Panicked p, s\<lparr>r := r6\<rparr>)
      | Inr isError \<Rightarrow>
     (case decodeEventData X pcrIndex eventType event (options s) isError of
        (dat, trailing) \<Rightarrow>
          (Return (\<lparr>Index = 0, PCRIndex = pcrIndex, EventType = eventType,
                    Digests = digests, Data = dat\<rparr>, trailing),
           s\<lparr>r := r6\<rparr>))))))"

text \<open>
  \<^verbatim>\<open>stream_2.readNextEvent\<close>. The first call goes to a 1.2 reader on the same source,
  made without the options. Every later call reads the header of a 2.0 record, the digest
  list, checks it against the advertised algorithms, deletes the digests of unknown
  algorithms and goes on with the event data.
\<close>

definition stream_2_readNextEvent ::
  "decoders \<Rightarrow> crypto \<Rightarrow> stream_2 \<Rightarrow> (Event \<times> int) result \<times> stream_2" where
  "stream_2_readNextEvent X H s =
     (if \<not> readFirstEvent s then
        (case stream_1_2_readNextEvent X H \<lparr>r = r s, options = \<lparr>EnableGrub = False\<rparr>\<rparr> of
           (res, s1) \<Rightarrow> (res, s\<lparr>r := r s1, readFirstEvent := True\<rparr>))
      else
     (case readUint32 (r s) of
        (Inl err, r1) \<Rightarrow> (Fail (wrapLogReadError err False), s\<lparr>r := r1\<rparr>)
      | (Inr pcrIndex, r1) \<Rightarrow>
     if \<not> isPCRIndexInRange pcrIndex
     then (Fail (wrapPCRIndexOutOfRangeError pcrIndex), s\<lparr>r := r1\<rparr>)
     else
     (case readUint32 r1 of
        (Inl err, r2) \<Rightarrow> (Fail (wrapLogReadError err True), s\<lparr>r := r2\<rparr>)
      | (Inr eventType, r2) \<Rightarrow>
     (case readUint32 r2 of
        (Inl err, r3) \<Rightarrow> (Fail (wrapLogReadError err True), s\<lparr>r := r3\<rparr>)
      | (Inr count, r3) \<Rightarrow>
     (case readDigests (algSizes s) (unat count) r3 (\<lambda>alg. None) of
        (Inl err, r4) \<Rightarrow> (Fail err, s\<lparr>r := r4\<rparr>)
      | (Inr allDigests, r4) \<Rightarrow>
     (case missingDigest (algSizes s) allDigests of
        Some alg \<Rightarrow> (Fail (MissingDigest alg), s\<lparr>r := r4\<rparr>)
      | None \<Rightarrow>
          stream_2_readEventData X H s pcrIndex eventType (deleteUnknown allDigests) r4))))))"

section \<open>The log driver (\<^verbatim>\<open>log.go\<close>)\<close>

text \<open>The two implementations of the \<^verbatim>\<open>stream\<close> interface.\<close>

datatype stream = Stream_1_2 stream_1_2 | Stream_2 stream_2

definition readNextEvent :: "decoders \<Rightarrow> crypto \<Rightarrow> stream \<Rightarrow> (Event \<times> int) result \<times> stream" where
  "readNextEvent X H st = (case st of
      Stream_1_2 s \<Rightarrow> (case stream_1_2_readNextEvent X H s of (res, s') \<Rightarrow> (res, Stream_1_2 s'))
    | Stream_2 s \<Rightarrow> (case stream_2_readNextEvent X H s of (res, s') \<Rightarrow> (res, Stream_2 s')))"

definition streamReader :: "stream \<Rightarrow> reader" where
  "streamReader st = (case st of Stream_1_2 s \<Rightarrow> r s | Stream_2 s \<Rightarrow> r s)"

record Log =
  Spec :: Spec
  Algorithms :: "AlgorithmId list"
  stream :: stream
  failed :: bool
  indexTracker :: "PCRIndex \<Rightarrow> 64 word option"

definition isSpecIdEvent :: "Event \<Rightarrow> bool" where
  "isSpecIdEvent event = (case Data event of SpecIdEvent _ \<Rightarrow> True | _ \<Rightarrow> False)"

text \<open>The loop of \<^verbatim>\<open>fixupSpecIdEvent\<close> over the algorithm list.\<close>

fun fixupDigests :: "AlgorithmId list \<Rightarrow> DigestMap \<Rightarrow> DigestMap" where
  "fixupDigests [] digests = digests"
| "fixupDigests (alg # algs) digests =
     (if alg = AlgorithmSha1 then fixupDigests algs digests
      else if digests alg \<noteq> None then fixupDigests algs digests
      else fixupDigests algs (digests(alg := Some (zeroDigest alg))))"

text \<open>
  \<^verbatim>\<open>fixupSpecIdEvent\<close>: the type assertion panics on an event whose data is no
  \<^verbatim>\<open>SpecIdEventData\<close>.
\<close>

definition fixupSpecIdEvent :: "Event \<Rightarrow> AlgorithmId list \<Rightarrow> panic + Event" where
  "fixupSpecIdEvent event algorithms =
     (case Data event of
        SpecIdEvent d \<Rightarrow>
          if SpecIdEventData.Spec d \<noteq> SpecEFI_2 then Inr event
          else Inr (event\<lparr>Digests := fixupDigests algorithms (Digests event)\<rparr>)
      | _ \<Rightarrow> Inl TypeAssertion)"

definition isSpecErr :: "error \<Rightarrow> bool" where
  "isSpecErr e = (case e of InvalidSpecIdEventError _ \<Rightarrow> True | _ \<Rightarrow> False)"

text \<open>
  \<^verbatim>\<open>newLogFromReader\<close>. On a \<^verbatim>\<open>bytes.Reader\<close> neither \<^verbatim>\<open>Seek\<close> call fails:
  the first returns the offset, the second sets it. The reader is returned next to the
  result, in the state in which the call leaves it.
\<close>

definition newLogFromReader ::
  "decoders \<Rightarrow> crypto \<Rightarrow> reader \<Rightarrow> LogOptions \<Rightarrow> Log result \<times> reader" where
  "newLogFromReader X H rd opts =
     (let start = off rd in
      case stream_1_2_readNextEvent X H \<lparr>r = rd, options = opts\<rparr> of
        (Fail err, s1) \<Rightarrow> (Fail (wrapLogReadError err True), r s1)
      | (Panicked p, s1) \<Rightarrow> (Panicked p, r s1)
      | (Return (event, _), s1) \<Rightarrow>
          (case (case Data event of
                   SpecIdEvent d \<Rightarrow> Inr (SpecIdEventData.Spec d, DigestSizes d)
                 | BrokenEventData _ e \<Rightarrow> if isSpecErr e then Inl e else Inr (SpecUnknown, [])
                 | _ \<Rightarrow> Inr (SpecUnknown, [])) of
             Inl e \<Rightarrow> (Fail e, r s1)
           | Inr (spec, digestSizes) \<Rightarrow>
               let rd' = (r s1)\<lparr>off := start\<rparr> in
               if spec = SpecEFI_2 then
                 (Return \<lparr>Spec = spec,
                          Algorithms = filter isKnownAlgorithm (map AlgorithmId digestSizes),
                          stream = Stream_2 \<lparr>r = rd', options = opts, algSizes = digestSizes,
                                             readFirstEvent = False\<rparr>,
                          failed = False, indexTracker = (\<lambda>p. None)\<rparr>, rd')
               else
                 (Return \<lparr>Spec = spec, Algorithms = [AlgorithmSha1],
                          stream = Stream_1_2 \<lparr>r = rd', options = opts\<rparr>,
                          failed = False, indexTracker = (\<lambda>p. None)\<rparr>, rd')))"

text \<open>
  \<^verbatim>\<open>Log.nextEventInternal\<close>. A panic unwinds through the caller: nothing after the
  panicking call is run, so the failed flag and the index tracker stay as they were.
\<close>

definition nextEventInternal ::
  "decoders \<Rightarrow> crypto \<Rightarrow> Log \<Rightarrow> (Event \<times> int) result \<times> Log" where
  "nextEventInternal X H l =
     (if failed l then (Fail InconsistentLog, l)
      else
      case readNextEvent X H (stream l) of
        (Fail err, st) \<Rightarrow>
          (Fail err, (if err \<noteq> EOF then l\<lparr>stream := st, failed := True\<rparr> else l\<lparr>stream := st\<rparr>))
      | (Panicked p, st) \<Rightarrow> (Panicked p, l\<lparr>stream := st\<rparr>)
      | (Return (event, trailing), st) \<Rightarrow>
          let (event1, tracker) =
                (case indexTracker l (PCRIndex event) of
                   Some i \<Rightarrow> (event\<lparr>Index := i\<rparr>, (indexTracker l)(PCRIndex event := Some (i + 1)))
                 | None \<Rightarrow> (event\<lparr>Index := 0\<rparr>, (indexTracker l)(PCRIndex event := Some 1)));
              l1 = l\<lparr>stream := st, indexTracker := tracker\<rparr>
          in
          if isSpecIdEvent event1 then
            (case fixupSpecIdEvent event1 (Algorithms l) of
               Inl p \<Rightarrow> (Panicked p, l1)
             | Inr event2 \<Rightarrow> (Return (event2, trailing), l1))
          else (Return (event1, trailing), l1))"

text \<open>\<^verbatim>\<open>Log.NextEvent\<close> drops the count of trailing bytes.\<close>

definition NextEvent :: "decoders \<Rightarrow> crypto \<Rightarrow> Log \<Rightarrow> Event result \<times> Log" where
  "NextEvent X H l = (case nextEventInternal X H l of
      (Return (event, _), l') \<Rightarrow> (Return event, l')
    | (Fail err, l') \<Rightarrow> (Fail err, l')
    | (Panicked p, l') \<Rightarrow> (Panicked p, l'))"

section \<open>Runs of the log driver\<close>

text \<open>The log after one more call of \<^verbatim>\<open>NextEvent\<close>, whatever the call returned.\<close>

definition stepLog :: "decoders \<Rightarrow> crypto \<Rightarrow> Log \<Rightarrow> Log" where
  "stepLog X H l = snd (nextEventInternal X H l)"

text \<open>
  The events that \<open>n\<close> successive calls return, in the order of the calls. A call that
  fails returns no event and the caller may call again.
\<close>

fun emitted :: "decoders \<Rightarrow> crypto \<Rightarrow> nat \<Rightarrow> Log \<Rightarrow> Event list" where
  "emitted X H 0 l = []"
| "emitted X H (Suc n) l =
     (case nextEventInternal X H l of
        (Return (event, _), l') \<Rightarrow> event # emitted X H n l'
      | (_, l') \<Rightarrow> emitted X H n l')"

text \<open>The index that the tracker gives to the next event of a PCR.\<close>

definition nextIndex :: "(PCRIndex \<Rightarrow> 64 word option) \<Rightarrow> PCRIndex \<Rightarrow> 64 word" where
  "nextIndex t p = (case t p of None \<Rightarrow> 0 | Some i \<Rightarrow> i)"

text \<open>The algorithm identifiers that a Spec ID event advertises.\<close>

definition advertised :: "EFISpecIdEventAlgorithmSize list \<Rightarrow> AlgorithmId set" where
  "advertised sizes = AlgorithmId ` set sizes"

section \<open>The record layouts, as byte sequences\<close>

text \<open>
  The two record layouts that the readers parse, written as encoders: a 1.2 record is
  PCR index, event type, a 20-byte digest, event size and event data; a 2.0 record is PCR
  index, event type, digest count, the digests (each an algorithm identifier and the
  digest bytes), event size and event data. All integers are little-endian.
\<close>

definition PutUint16 :: "16 word \<Rightarrow> byte list" where
  "PutUint16 v = [ucast v, ucast (drop_bit 8 v)]"

definition encodeEvent_1_2 :: "PCRIndex \<Rightarrow> EventType \<Rightarrow> Digest \<Rightarrow> byte list \<Rightarrow> byte list" where
  "encodeEvent_1_2 pcrIndex eventType digest dat =
     PutUint32 pcrIndex @ PutUint32 eventType @ digest @ PutUint32 (of_nat (length dat)) @ dat"

definition encodeDigests :: "(AlgorithmId \<times> Digest) list \<Rightarrow> byte list" where
  "encodeDigests ds = concat (map (\<lambda>(alg, d). PutUint16 alg @ d) ds)"

definition encodeEvent_2 ::
  "PCRIndex \<Rightarrow> EventType \<Rightarrow> (AlgorithmId \<times> Digest) list \<Rightarrow> byte list \<Rightarrow> byte list" where
  "encodeEvent_2 pcrIndex eventType ds dat =
     PutUint32 pcrIndex @ PutUint32 eventType @ PutUint32 (of_nat (length ds)) @ encodeDigests ds
       @ PutUint32 (of_nat (length dat)) @ dat"

text \<open>The event data of an EFI 2 Spec ID event that advertises \<open>sizes\<close>, without vendor data.\<close>

definition specIdEvent03 :: "EFISpecIdEventAlgorithmSize list \<Rightarrow> byte list" where
  "specIdEvent03 sizes =
     sig_SpecIdEvent03 @ PutUint32 0 @ [0, 2, 0, 2] @ PutUint32 (of_nat (length sizes))
       @ concat (map (\<lambda>a. PutUint16 (AlgorithmId a) @ PutUint16 (DigestSize a)) sizes) @ [0]"

section \<open>The digest list of a 2.0 record, by the rules of the specification\<close>

text \<open>
  The three rules of the specification for the digest list of a 2.0 record, on the list of
  the entries (algorithm identifier and digest) in the order of the record: an entry whose
  algorithm is not advertised is an unrecognised algorithm; an entry whose algorithm
  an earlier entry had is a duplicate digest. This definition follows the words of
  the specification and is compared below with the loop of the reader.
\<close>

fun collectDigests ::
  "AlgorithmId set \<Rightarrow> DigestMap \<Rightarrow> (AlgorithmId \<times> Digest) list \<Rightarrow> error + DigestMap" where
  "collectDigests adv m [] = Inr m"
| "collectDigests adv m ((alg, d) # ds) =
     (if alg \<notin> adv then Inl (UnrecognizedAlgorithm alg)
      else if m alg \<noteq> None then Inl (DuplicateDigest alg)
      else collectDigests adv (m(alg := Some d)) ds)"

text \<open>
  The verdict on a whole digest list: the first entry that breaks one of the two rules
  decides; after all entries are read, the first advertised algorithm without an entry is a
  missing digest.
\<close>

definition digestListVerdict ::
  "EFISpecIdEventAlgorithmSize list \<Rightarrow> (AlgorithmId \<times> Digest) list \<Rightarrow> error option" where
  "digestListVerdict sizes ds =
     (case collectDigests (advertised sizes) (\<lambda>a. None) ds of
        Inl e \<Rightarrow> Some e
      | Inr m \<Rightarrow> map_option MissingDigest (find (\<lambda>a. a \<notin> fst ` set ds) (map AlgorithmId sizes)))"

text \<open>
  In an encoded digest list the digest of an advertised algorithm has the length that
  the Spec ID event gives for it; this is what makes the list a sequence of entries.
\<close>

definition wellSized :: "EFISpecIdEventAlgorithmSize list \<Rightarrow> (AlgorithmId \<times> Digest) list \<Rightarrow> bool" where
  "wellSized sizes ds =
     (\<forall>(alg, d) \<in> set ds. \<forall>a. find (\<lambda>x. AlgorithmId x = alg) sizes = Some a
         \<longrightarrow> length d = unat (DigestSize a))"

section \<open>Concrete logs\<close>

text \<open>
  The digests of the four bytes \<open>01 00 00 00\<close> and \<open>00 00 00 00\<close>, as the library
  computes them.
\<close>

definition sha1_error :: Digest where
  "sha1_error = [
     0x3C, 0x58, 0x56, 0x04, 0xE8, 0x7F, 0x85, 0x59, 0x73, 0x73, 0x1F, 0xEA, 0x83, 0xE2, 0x1F, 0xAB,
     0x93, 0x92, 0xD2, 0xFC]"

definition sha256_error :: Digest where
  "sha256_error = [
     0x67, 0xAB, 0xDD, 0x72, 0x10, 0x24, 0xF0, 0xFF, 0x4E, 0x0B, 0x3F, 0x4C, 0x2F, 0xC1, 0x3B, 0xC5,
     0xBA, 0xD4, 0x2D, 0x0B, 0x78, 0x51, 0xD4, 0x56, 0xD8, 0x8D, 0x20, 0x3D, 0x15, 0xAA, 0xA4, 0x50]"

definition sha384_error :: Digest where
  "sha384_error = [
     0x72, 0x10, 0xAF, 0x19, 0x14, 0x5E, 0xC2, 0xA8, 0xE2, 0x50, 0xA7, 0xFE, 0x8E, 0x9E, 0xEE, 0xAC,
     0x13, 0x01, 0xE5, 0x24, 0xDA, 0xAB, 0x82, 0x36, 0x6C, 0x36, 0xBE, 0x61, 0x4D, 0xC3, 0x54, 0x02,
     0xA2, 0x89, 0x10, 0x1E, 0x48, 0xCA, 0xD6, 0x1C, 0x45, 0x33, 0x7F, 0x2F, 0x32, 0xC1, 0x4F, 0xDC]"

definition sha512_error :: Digest where
  "sha512_error = [
     0xED, 0xF9, 0x2E, 0x3D, 0x4F, 0x80, 0xFC, 0x47, 0xD9, 0x48, 0xEA, 0x2F, 0x17, 0xB9, 0xBF, 0xC7,
     0x42, 0xD3, 0x4E, 0x2E, 0x78, 0x5A, 0x7A, 0x49, 0x27, 0xF3, 0xE2, 0x61, 0xE8, 0xBD, 0x9D, 0x40,
     0x0B, 0x64, 0x8B, 0xFF, 0x21, 0x23, 0xB8, 0x39, 0x6D, 0x24, 0xFB, 0x28, 0xF5, 0x86, 0x99, 0x79,
     0xE0, 0x8D, 0x58, 0xB4, 0xB5, 0xD1, 0x56, 0xE6, 0x40, 0x34, 0x4A, 0x2C, 0x0A, 0x54, 0x67, 0x5D]"

definition sha1_zero :: Digest where
  "sha1_zero = [
     0x90, 0x69, 0xCA, 0x78, 0xE7, 0x45, 0x0A, 0x28, 0x51, 0x73, 0x43, 0x1B, 0x3E, 0x52, 0xC5, 0xC2,
     0x52, 0x99, 0xE4, 0x73]"

definition sha256_zero :: Digest where
  "sha256_zero = [
     0xDF, 0x3F, 0x61, 0x98, 0x04, 0xA9, 0x2F, 0xDB, 0x40, 0x57, 0x19, 0x2D, 0xC4, 0x3D, 0xD7, 0x48,
     0xEA, 0x77, 0x8A, 0xDC, 0x52, 0xBC, 0x49, 0x8C, 0xE8, 0x05, 0x24, 0xC0, 0x14, 0xB8, 0x11, 0x19]"

text \<open>
  An instance of the digest functions for running the model: it agrees with the library
  on the input \<open>01 00 00 00\<close>, which is the only input the readers hash.
\<close>

definition tableCrypto :: crypto where
  "tableCrypto =
     \<lparr>sha1_Sum = (\<lambda>d. if d = [0x01, 0x00, 0x00, 0x00] then sha1_error else replicate 20 0),
      sha256_Sum256 = (\<lambda>d. if d = [0x01, 0x00, 0x00, 0x00] then sha256_error else replicate 32 0),
      sha512_Sum384 = (\<lambda>d. if d = [0x01, 0x00, 0x00, 0x00] then sha384_error else replicate 48 0),
      sha512_Sum512 = (\<lambda>d. if d = [0x01, 0x00, 0x00, 0x00] then sha512_error else replicate 64 0)\<rparr>"

text \<open>
  An instance of the absent decoders for running the model: the EFI 2 Spec ID parser as
  the specification lays it out; every other absent decoder gives no data, so that its
  events come out as the \<open>Opaque\<close> variant, and the EFI 1.2 parser gives an error.
\<close>

definition exampleDecoders :: decoders where
  "exampleDecoders =
     \<lparr>parseEFI_1_2_SpecIdEvent = (\<lambda>stream eventData. Inl (ExternalError ''absent'')),
      parseEFI_2_SpecIdEvent = specParseEFI_2_SpecIdEvent,
      decodeBIMReferenceManifestEvent = (\<lambda>stream dat. (None, None)),
      decodeStartupLocalityEvent = (\<lambda>stream dat. (None, None)),
      decodeEventDataEFIVariable = (\<lambda>dat eventType. (None, 0, None)),
      decodeEventDataEFIImageLoad = (\<lambda>dat. (None, 0, None)),
      decodeEventDataEFIGPT = (\<lambda>dat. (None, 0, None)),
      decodeEventDataGRUB = (\<lambda>pcrIndex eventType dat. None)\<rparr>"

definition noGrub :: LogOptions where
  "noGrub = \<lparr>EnableGrub = False\<rparr>"

text \<open>
  A legacy log of three separator events: a normal one on PCR 0, an error separator on
  PCR 0 with platform-defined data, and a normal one on PCR 7.
\<close>

definition legacyLog :: "byte list" where
  "legacyLog =
     encodeEvent_1_2 0 EventTypeSeparator sha1_zero [0, 0, 0, 0]
     @ encodeEvent_1_2 0 EventTypeSeparator sha1_error [0xDE, 0xAD, 0xBE, 0xEF]
     @ encodeEvent_1_2 7 EventTypeSeparator sha1_zero [0, 0, 0, 0]"

definition legacyOpened :: Log where
  "legacyOpened =
     \<lparr>Spec = SpecUnknown, Algorithms = [AlgorithmSha1],
      stream = Stream_1_2 \<lparr>r = \<lparr>buf = legacyLog, off = 0\<rparr>, options = noGrub\<rparr>,
      failed = False, indexTracker = (\<lambda>p. None)\<rparr>"

text \<open>A legacy log whose second record ends two bytes into its four bytes of event data.\<close>

definition truncatedLog :: "byte list" where
  "truncatedLog =
     encodeEvent_1_2 0 EventTypeSeparator sha1_zero [0, 0, 0, 0]
     @ PutUint32 0 @ PutUint32 EventTypeSeparator @ sha1_zero @ PutUint32 4 @ [0, 0]"

definition truncatedOpened :: Log where
  "truncatedOpened =
     \<lparr>Spec = SpecUnknown, Algorithms = [AlgorithmSha1],
      stream = Stream_1_2 \<lparr>r = \<lparr>buf = truncatedLog, off = 0\<rparr>, options = noGrub\<rparr>,
      failed = False, indexTracker = (\<lambda>p. None)\<rparr>"

text \<open>
  A crypto-agile log that advertises SHA-1 and SHA-256: the Spec ID event, a normal
  separator, and a separator whose SHA-256 digest is the digest of \<open>01 00 00 00\<close> while
  its SHA-1 digest is not.
\<close>

definition agileSizes :: "EFISpecIdEventAlgorithmSize list" where
  "agileSizes = [\<lparr>AlgorithmId = AlgorithmSha1, DigestSize = 20\<rparr>,
                 \<lparr>AlgorithmId = AlgorithmSha256, DigestSize = 32\<rparr>]"

definition agileLog :: "byte list" where
  "agileLog =
     encodeEvent_1_2 0 EventTypeNoAction (replicate 20 0) (specIdEvent03 agileSizes)
     @ encodeEvent_2 0 EventTypeSeparator
         [(AlgorithmSha1, sha1_zero), (AlgorithmSha256, sha256_zero)] [0, 0, 0, 0]
     @ encodeEvent_2 0 EventTypeSeparator
         [(AlgorithmSha1, replicate 20 0), (AlgorithmSha256, sha256_error)]
         [0xDE, 0xAD, 0xBE, 0xEF]"

definition agileOpened :: Log where
  "agileOpened =
     \<lparr>Spec = SpecEFI_2, Algorithms = [AlgorithmSha1, AlgorithmSha256],
      stream = Stream_2 \<lparr>r = \<lparr>buf = agileLog, off = 0\<rparr>, options = noGrub,
                         algSizes = agileSizes, readFirstEvent = False\<rparr>,
      failed = False, indexTracker = (\<lambda>p. None)\<rparr>"

text \<open>
  A crypto-agile log that advertises SHA-1 and then the algorithm 0x0012 (SM3-256, 32
  bytes), which is not supported; its second event carries a digest for each.
\<close>

definition mixedSizes :: "EFISpecIdEventAlgorithmSize list" where
  "mixedSizes = [\<lparr>AlgorithmId = AlgorithmSha1, DigestSize = 20\<rparr>,
                 \<lparr>AlgorithmId = 0x0012, DigestSize = 32\<rparr>]"

definition mixedLog :: "byte list" where
  "mixedLog =
     encodeEvent_1_2 0 EventTypeNoAction (replicate 20 0) (specIdEvent03 mixedSizes)
     @ encodeEvent_2 0 EventTypeSeparator
         [(AlgorithmSha1, sha1_zero), (0x0012, replicate 32 0xAA)] [0, 0, 0, 0]"

text \<open>The 2.0 reader on \<open>mixedLog\<close> after the first event (69 bytes) has been read.\<close>

definition mixedStream :: stream_2 where
  "mixedStream = \<lparr>r = \<lparr>buf = mixedLog, off = 69\<rparr>, options = noGrub,
                   algSizes = mixedSizes, readFirstEvent = True\<rparr>"

text \<open>
  A crypto-agile log whose first advertised algorithm is 0x0012: the same two
  algorithms in the other order.
\<close>

definition unsupportedSizes :: "EFISpecIdEventAlgorithmSize list" where
  "unsupportedSizes = [\<lparr>AlgorithmId = 0x0012, DigestSize = 32\<rparr>,
                       \<lparr>AlgorithmId = AlgorithmSha1, DigestSize = 20\<rparr>]"

definition unsupportedLog :: "byte list" where
  "unsupportedLog =
     encodeEvent_1_2 0 EventTypeNoAction (replicate 20 0) (specIdEvent03 unsupportedSizes)
     @ encodeEvent_2 0 EventTypeAction
         [(0x0012, replicate 32 0xAA), (AlgorithmSha1, replicate 20 0xBB)] [0x41, 0x42]"

definition unsupportedOpened :: Log where
  "unsupportedOpened =
     \<lparr>Spec = SpecEFI_2, Algorithms = [AlgorithmSha1],
      stream = Stream_2 \<lparr>r = \<lparr>buf = unsupportedLog, off = 0\<rparr>, options = noGrub,
                         algSizes = unsupportedSizes, readFirstEvent = False\<rparr>,
      failed = False, indexTracker = (\<lambda>p. None)\<rparr>"

text \<open>
  Crypto-agile logs that advertise SHA-1 and SHA-256 and whose second record has a
  digest list that breaks a rule: an entry for the algorithm 0x0012, two entries for
  SHA-1, and no entry for SHA-256. The log state is the one after the first event.
\<close>

definition unrecognisedDigests :: "(AlgorithmId \<times> Digest) list" where
  "unrecognisedDigests = [(AlgorithmSha1, sha1_zero), (0x0012, replicate 32 0xAA)]"

definition duplicateDigests :: "(AlgorithmId \<times> Digest) list" where
  "duplicateDigests = [(AlgorithmSha1, sha1_zero), (AlgorithmSha1, sha1_zero)]"

definition missingDigests :: "(AlgorithmId \<times> Digest) list" where
  "missingDigests = [(AlgorithmSha1, sha1_zero)]"

definition digestListLog :: "(AlgorithmId \<times> Digest) list \<Rightarrow> byte list" where
  "digestListLog ds =
     encodeEvent_1_2 0 EventTypeNoAction (replicate 20 0) (specIdEvent03 agileSizes)
     @ PutUint32 0 @ PutUint32 EventTypeSeparator @ PutUint32 (of_nat (length ds))
     @ encodeDigests ds @ PutUint32 4 @ [0, 0, 0, 0]"

definition digestListStream :: "(AlgorithmId \<times> Digest) list \<Rightarrow> stream_2" where
  "digestListStream ds = \<lparr>r = \<lparr>buf = digestListLog ds, off = 69\<rparr>, options = noGrub,
                           algSizes = agileSizes, readFirstEvent = True\<rparr>"

definition digestListState :: "(AlgorithmId \<times> Digest) list \<Rightarrow> Log" where
  "digestListState ds =
     \<lparr>Spec = SpecEFI_2, Algorithms = [AlgorithmSha1, AlgorithmSha256],
      stream = Stream_2 (digestListStream ds),
      failed = False, indexTracker = (\<lambda>p. None)(0 := Some 1)\<rparr>"

definition digestListOpened :: "(AlgorithmId \<times> Digest) list \<Rightarrow> Log" where
  "digestListOpened ds =
     \<lparr>Spec = SpecEFI_2, Algorithms = [AlgorithmSha1, AlgorithmSha256],
      stream = Stream_2 \<lparr>r = \<lparr>buf = digestListLog ds, off = 0\<rparr>, options = noGrub,
                         algSizes = agileSizes, readFirstEvent = False\<rparr>,
      failed = False, indexTracker = (\<lambda>p. None)\<rparr>"

section \<open>Running the model on concrete inputs\<close>

lemma replicate_numeral: "replicate (numeral v) x = x # replicate (numeral v - 1) x"
  by (simp add: numeral_eq_Suc)

lemma readAlgorithmSizes_numeral:
  "readAlgorithmSizes (numeral v) rd = readAlgorithmSizes (Suc (pred_numeral v)) rd"
  by (simp add: numeral_eq_Suc)

lemma readDigests_numeral:
  "readDigests sizes (numeral v) rd m = readDigests sizes (Suc (pred_numeral v)) rd m"
  by (simp add: numeral_eq_Suc)

text \<open>
  One call unfolded, with the state of the next call as an argument, so that a run on
  a concrete log is evaluated call by call.
\<close>

lemma emitted_step:
  "emitted X H (Suc n) l =
     (case fst (nextEventInternal X H l) of Return (e, _) \<Rightarrow> [e] | _ \<Rightarrow> [])
       @ emitted X H n (stepLog X H l)"
  by (simp add: stepLog_def split: prod.splits result.splits)

lemma emitted_numeral:
  "emitted X H (numeral v) l =
     (case fst (nextEventInternal X H l) of Return (e, _) \<Rightarrow> [e] | _ \<Rightarrow> [])
       @ emitted X H (pred_numeral v) (stepLog X H l)"
  by (simp add: numeral_eq_Suc emitted_step del: emitted.simps)

lemmas ev_num = replicate_numeral readAlgorithmSizes_numeral readDigests_numeral emitted_numeral

lemmas ev_defs =
  encodeEvent_1_2_def encodeEvent_2_def encodeDigests_def PutUint32_def PutUint16_def
  sha1_zero_def sha1_error_def sha256_zero_def sha256_error_def sha384_error_def sha512_error_def
  EventTypeSeparator_def EventTypeNoAction_def EventTypeAction_def EventTypeEFIAction_def
  EventTypeEFIVariableDriverConfig_def EventTypeEFIVariableBoot_def
  EventTypeEFIVariableAuthority_def EventTypeEFIBootServicesApplication_def
  EventTypeEFIBootServicesDriver_def EventTypeEFIRuntimeServicesDriver_def
  EventTypeEFIGPTEvent_def
  AlgorithmSha1_def AlgorithmSha256_def AlgorithmSha384_def AlgorithmSha512_def
  specIdEvent03_def sig_SpecIdEvent03_def sig_SpecIdEvent00_def sig_SpecIdEvent02_def
  sig_SP800_155_def sig_StartupLocality_def
  newLogFromReader_def stream_1_2_readNextEvent_def stream_2_readNextEvent_def stream_2_readEventData_def
  readNextEvent_def
  nextEventInternal_def stepLog_def readUint32_def readUint16_def readUint8_def ReadFull_def
  Read_def remaining_def NewReader_def isPCRIndexInRange_def wrapLogReadError_def
  wrapPCRIndexOutOfRangeError_def knownAlgorithmSize_def knownAlgorithms_def
  isKnownAlgorithm_def isDigestOfSeparatorErrorValue_def hash_def errorValue_def
  separatorEventErrorValue_def tableCrypto_def exampleDecoders_def noGrub_def
  decodeEventData_def decodeEventDataTCG_def decodeEventDataNoAction_def
  decodeEventDataSeparator_def decodeEventDataAction_def decodeSpecIdEvent_def ofSpecId_def
  specParseEFI_2_SpecIdEvent_def wrapSpecIdEventReadError_def isSpecErr_def isSpecIdEvent_def
  fixupSpecIdEvent_def zeroDigest_def zeroDigests_def digestOf_def deleteUnknown_def
  missingDigest_def Let_def

text \<open>Each example log opens to the log state that the examples start from.\<close>

lemma legacy_open:
  "newLogFromReader exampleDecoders tableCrypto (NewReader legacyLog) noGrub
     = (Return legacyOpened, NewReader legacyLog)"
  by (simp add: legacyOpened_def legacyLog_def ev_defs ev_num)

lemma truncated_open:
  "newLogFromReader exampleDecoders tableCrypto (NewReader truncatedLog) noGrub
     = (Return truncatedOpened, NewReader truncatedLog)"
  by (simp add: truncatedOpened_def truncatedLog_def ev_defs ev_num)

lemma agile_open:
  "newLogFromReader exampleDecoders tableCrypto (NewReader agileLog) noGrub
     = (Return agileOpened, NewReader agileLog)"
  by (simp add: agileOpened_def agileLog_def agileSizes_def ev_defs ev_num)

lemma unsupported_open:
  "newLogFromReader exampleDecoders tableCrypto (NewReader unsupportedLog) noGrub
     = (Return unsupportedOpened, NewReader unsupportedLog)"
  by (simp add: unsupportedOpened_def unsupportedLog_def unsupportedSizes_def ev_defs ev_num)

section \<open>End of stream\<close>

lemma stream_1_2_EOF_iff:
  "stream_1_2_readNextEvent X H s = (Fail EOF, s') \<longleftrightarrow>
     (length (buf (r s)) \<le> off (r s) \<and> s' = s)"
  by (auto simp: stream_1_2_readNextEvent_def readUint32_def ReadFull_def Read_def Let_def
      wrapLogReadError_def wrapPCRIndexOutOfRangeError_def
      split: prod.splits sum.splits if_splits)

lemma readDigests_not_EOF: "readDigests sizes n rd d \<noteq> (Inl EOF, rd')"
  by (induction n arbitrary: rd d)
     (auto simp: wrapLogReadError_def split: prod.splits sum.splits option.splits if_splits)

lemma stream_2_EOF_first:
  assumes "\<not> readFirstEvent s"
  shows "stream_2_readNextEvent X H s = (Fail EOF, s') \<longleftrightarrow>
     (length (buf (r s)) \<le> off (r s) \<and> s' = s\<lparr>readFirstEvent := True\<rparr>)"
proof -
  let ?t = "\<lparr>r = r s, options = \<lparr>EnableGrub = False\<rparr>\<rparr>"
  obtain res s1 where d: "stream_1_2_readNextEvent X H ?t = (res, s1)"
    by (cases "stream_1_2_readNextEvent X H ?t")
  have e: "stream_2_readNextEvent X H s = (res, s\<lparr>r := r s1, readFirstEvent := True\<rparr>)"
    using assms d by (simp add: stream_2_readNextEvent_def)
  show ?thesis
  proof (cases "res = Fail EOF")
    case True
    with d have "length (buf (r s)) \<le> off (r s)" and "s1 = ?t"
      using stream_1_2_EOF_iff [of X H ?t s1] by auto
    with e True show ?thesis by auto
  next
    case False
    have "\<not> length (buf (r s)) \<le> off (r s)"
    proof
      assume "length (buf (r s)) \<le> off (r s)"
      then have "stream_1_2_readNextEvent X H ?t = (Fail EOF, ?t)"
        using stream_1_2_EOF_iff [of X H ?t] by simp
      with d False show False by simp
    qed
    with e False show ?thesis by auto
  qed
qed

lemma stream_2_EOF_later:
  assumes "readFirstEvent s"
  shows "stream_2_readNextEvent X H s = (Fail EOF, s') \<longleftrightarrow>
     (length (buf (r s)) \<le> off (r s) \<and> s' = s)"
  using assms readDigests_not_EOF [of "algSizes s"]
  by (auto simp: stream_2_readNextEvent_def stream_2_readEventData_def readUint32_def ReadFull_def Let_def
      wrapLogReadError_def wrapPCRIndexOutOfRangeError_def
      split: prod.splits sum.splits if_splits option.splits list.splits)

lemma readNextEvent_EOF_again:
  assumes "readNextEvent X H st = (Fail EOF, st')"
  shows "readNextEvent X H st' = (Fail EOF, st')"
proof (cases st)
  case (Stream_1_2 s)
  with assms obtain s' where
    "stream_1_2_readNextEvent X H s = (Fail EOF, s')" "st' = Stream_1_2 s'"
    by (auto simp: readNextEvent_def split: prod.splits)
  then show ?thesis
    using stream_1_2_EOF_iff [of X H s s'] stream_1_2_EOF_iff [of X H s s]
    by (simp add: readNextEvent_def)
next
  case (Stream_2 s)
  with assms obtain s' where
    a: "stream_2_readNextEvent X H s = (Fail EOF, s')" "st' = Stream_2 s'"
    by (auto simp: readNextEvent_def split: prod.splits)
  have "length (buf (r s')) \<le> off (r s') \<and> readFirstEvent s'"
    using a(1) stream_2_EOF_first [of s X H s'] stream_2_EOF_later [of s X H s']
    by (cases "readFirstEvent s") auto
  then have "stream_2_readNextEvent X H s' = (Fail EOF, s')"
    using stream_2_EOF_later [of s' X H s'] by simp
  with a(2) show ?thesis by (simp add: readNextEvent_def)
qed

lemma readNextEvent_EOF_reader:
  assumes "readNextEvent X H st = (Fail EOF, st')"
  shows "streamReader st' = streamReader st
         \<and> length (buf (streamReader st)) \<le> off (streamReader st)"
proof (cases st)
  case (Stream_1_2 s)
  with assms obtain s' where
    "stream_1_2_readNextEvent X H s = (Fail EOF, s')" "st' = Stream_1_2 s'"
    by (auto simp: readNextEvent_def split: prod.splits)
  then show ?thesis
    using Stream_1_2 stream_1_2_EOF_iff [of X H s s'] by (simp add: streamReader_def)
next
  case (Stream_2 s)
  with assms obtain s' where
    a: "stream_2_readNextEvent X H s = (Fail EOF, s')" "st' = Stream_2 s'"
    by (auto simp: readNextEvent_def split: prod.splits)
  then show ?thesis
    using Stream_2 stream_2_EOF_first [of s X H s'] stream_2_EOF_later [of s X H s']
    by (cases "readFirstEvent s") (auto simp: streamReader_def)
qed

section \<open>The failed flag\<close>

lemma nextEventInternal_Fail:
  assumes "nextEventInternal X H l = (Fail err, l')"
  shows "(failed l \<and> err = InconsistentLog \<and> l' = l) \<or>
         (\<not> failed l \<and> (\<exists>st. readNextEvent X H (stream l) = (Fail err, st) \<and>
             l' = (if err \<noteq> EOF then l\<lparr>stream := st, failed := True\<rparr>
                   else l\<lparr>stream := st\<rparr>)))"
  using assms
  by (auto simp: nextEventInternal_def Let_def
      split: if_splits prod.splits result.splits option.splits sum.splits)

lemma sticky_failure_step:
  assumes "nextEventInternal X H l = (Fail err, l')" and "err \<noteq> EOF"
  shows "failed l'"
  using nextEventInternal_Fail [OF assms(1)] assms(2) by auto

lemma failed_fixpoint:
  "failed l \<Longrightarrow> (stepLog X H ^^ n) l = l"
  by (induction n) (simp_all add: stepLog_def nextEventInternal_def)

lemma eof_step:
  assumes "nextEventInternal X H l = (Fail EOF, l')"
  shows "\<not> failed l' \<and> nextEventInternal X H l' = (Fail EOF, l')
         \<and> streamReader (stream l') = streamReader (stream l)
         \<and> length (buf (streamReader (stream l))) \<le> off (streamReader (stream l))"
proof -
  from nextEventInternal_Fail [OF assms]
  obtain st where nf: "\<not> failed l" and rd: "readNextEvent X H (stream l) = (Fail EOF, st)"
    and l': "l' = l\<lparr>stream := st\<rparr>"
    by auto
  have "readNextEvent X H st = (Fail EOF, st)"
    by (rule readNextEvent_EOF_again [OF rd])
  with nf l' readNextEvent_EOF_reader [OF rd] show ?thesis
    by (simp add: nextEventInternal_def)
qed

lemma eof_fixpoint:
  assumes "nextEventInternal X H l = (Fail EOF, l)"
  shows "(stepLog X H ^^ n) l = l"
  using assms by (induction n) (simp_all add: stepLog_def)

text \<open>
  Claim C6. Once a call of \<^verbatim>\<open>nextEventInternal\<close> returns an error other than
  \<^verbatim>\<open>io.EOF\<close>, the failed flag of the log is set, and every later call, after any
  number of calls in between, returns the error of a failed log and leaves the log as it
  is, its stream and the reader in it included: nothing is read.
\<close>

theorem sticky_failure:
  assumes "nextEventInternal X H l = (Fail err, l')" and "err \<noteq> EOF"
  shows "failed l' \<and>
         (\<forall>n. nextEventInternal X H ((stepLog X H ^^ n) l') = (Fail InconsistentLog, l'))"
proof -
  have f: "failed l'"
    by (rule sticky_failure_step [OF assms])
  then have "nextEventInternal X H ((stepLog X H ^^ n) l') = (Fail InconsistentLog, l')" for n
    by (simp add: failed_fixpoint nextEventInternal_def)
  with f show ?thesis by simp
qed

text \<open>
  On the truncated log the second call fails with an unexpected end of the stream, and
  the calls after it fail without reading.
\<close>

theorem sticky_failure_witness:
  "fst (nextEventInternal exampleDecoders tableCrypto
          (stepLog exampleDecoders tableCrypto truncatedOpened))
     = Fail (LogReadError ErrUnexpectedEOF)
   \<and> LogReadError ErrUnexpectedEOF \<noteq> EOF
   \<and> failed (stepLog exampleDecoders tableCrypto
               (stepLog exampleDecoders tableCrypto truncatedOpened))
   \<and> (\<forall>n. nextEventInternal exampleDecoders tableCrypto
            ((stepLog exampleDecoders tableCrypto ^^ n)
               (stepLog exampleDecoders tableCrypto
                  (stepLog exampleDecoders tableCrypto truncatedOpened)))
          = (Fail InconsistentLog,
             stepLog exampleDecoders tableCrypto
               (stepLog exampleDecoders tableCrypto truncatedOpened)))"
proof -
  let ?l1 = "stepLog exampleDecoders tableCrypto truncatedOpened"
  have a: "fst (nextEventInternal exampleDecoders tableCrypto ?l1)
             = Fail (LogReadError ErrUnexpectedEOF)"
    by (simp add: truncatedOpened_def truncatedLog_def ev_defs ev_num)
  then have h: "nextEventInternal exampleDecoders tableCrypto ?l1
             = (Fail (LogReadError ErrUnexpectedEOF), stepLog exampleDecoders tableCrypto ?l1)"
    unfolding stepLog_def [of _ _ ?l1] by (simp add: prod_eq_iff)
  have ne: "LogReadError ErrUnexpectedEOF \<noteq> EOF" by simp
  from sticky_failure [OF h ne] a ne show ?thesis by simp
qed

text \<open>
  Claim C10. When a call returns \<^verbatim>\<open>io.EOF\<close>, the reader is at the end of its
  buffer and is left as it was, the failed flag is clear, and every later call reads
  again and returns \<^verbatim>\<open>io.EOF\<close> again, never the error of a failed log.
\<close>

theorem eof_not_sticky:
  assumes "nextEventInternal X H l = (Fail EOF, l')"
  shows "\<not> failed l'
         \<and> streamReader (stream l') = streamReader (stream l)
         \<and> length (buf (streamReader (stream l))) \<le> off (streamReader (stream l))
         \<and> (\<forall>n. nextEventInternal X H ((stepLog X H ^^ n) l') = (Fail EOF, l'))"
proof -
  note s = eof_step [OF assms]
  then have "nextEventInternal X H ((stepLog X H ^^ n) l') = (Fail EOF, l')" for n
    by (simp add: eof_fixpoint)
  with s show ?thesis by simp
qed

text \<open>On the legacy log of three events the fourth call and all later calls return EOF.\<close>

theorem eof_not_sticky_witness:
  "fst (nextEventInternal exampleDecoders tableCrypto
          (stepLog exampleDecoders tableCrypto (stepLog exampleDecoders tableCrypto
             (stepLog exampleDecoders tableCrypto legacyOpened))))
     = Fail EOF
   \<and> \<not> failed (stepLog exampleDecoders tableCrypto (stepLog exampleDecoders tableCrypto
        (stepLog exampleDecoders tableCrypto (stepLog exampleDecoders tableCrypto legacyOpened))))
   \<and> (\<forall>n. fst (nextEventInternal exampleDecoders tableCrypto
            ((stepLog exampleDecoders tableCrypto ^^ n)
               (stepLog exampleDecoders tableCrypto (stepLog exampleDecoders tableCrypto
                 (stepLog exampleDecoders tableCrypto
                   (stepLog exampleDecoders tableCrypto legacyOpened))))))
          = Fail EOF)"
proof -
  let ?l3 = "stepLog exampleDecoders tableCrypto (stepLog exampleDecoders tableCrypto
             (stepLog exampleDecoders tableCrypto legacyOpened))"
  have a: "fst (nextEventInternal exampleDecoders tableCrypto ?l3) = Fail EOF"
    by (simp add: legacyOpened_def legacyLog_def ev_defs ev_num)
  then have h: "nextEventInternal exampleDecoders tableCrypto ?l3
             = (Fail EOF, stepLog exampleDecoders tableCrypto ?l3)"
    unfolding stepLog_def [of _ _ ?l3] by (simp add: prod_eq_iff)
  from eof_not_sticky [OF h] a show ?thesis by simp
qed

section \<open>Event indices\<close>

lemma fixup_keeps:
  "fixupSpecIdEvent e algs = Inr e' \<Longrightarrow> PCRIndex e' = PCRIndex e \<and> Index e' = Index e"
  by (auto simp: fixupSpecIdEvent_def split: EventData.splits if_splits)

lemma fixup_no_panic:
  "isSpecIdEvent e \<Longrightarrow> fixupSpecIdEvent e algs \<noteq> Inl pn"
  by (auto simp: fixupSpecIdEvent_def isSpecIdEvent_def split: EventData.splits if_splits)

lemma nextEventInternal_Return_index:
  assumes "nextEventInternal X H l = (Return (e, tr), l')"
  shows "Index e = nextIndex (indexTracker l) (PCRIndex e) \<and>
         indexTracker l' = (indexTracker l)(PCRIndex e := Some (Index e + 1))"
  using assms
  by (auto simp: nextEventInternal_def Let_def nextIndex_def dest!: fixup_keeps
      split: if_splits prod.splits result.splits option.splits sum.splits)

lemma nextEventInternal_other_index:
  assumes "nextEventInternal X H l = (res, l')" and "\<forall>e tr. res \<noteq> Return (e, tr)"
  shows "indexTracker l' = indexTracker l"
  using assms
  by (auto simp: nextEventInternal_def Let_def fixup_no_panic
      split: if_splits prod.splits result.splits option.splits sum.splits)

text \<open>
  From any log state, the indices of the events of one PCR count up from the index that
  the tracker holds for that PCR.
\<close>

lemma emitted_indices:
  "map Index (filter (\<lambda>e. PCRIndex e = p) (emitted X H n l)) =
     map (\<lambda>k. nextIndex (indexTracker l) p + of_nat k)
       [0..<length (filter (\<lambda>e. PCRIndex e = p) (emitted X H n l))]"
proof (induction n arbitrary: l)
  case 0
  show ?case by simp
next
  case (Suc n)
  obtain res l' where step: "nextEventInternal X H l = (res, l')"
    by (cases "nextEventInternal X H l")
  show ?case
  proof (cases res)
    case (Return et)
    obtain e tr where et: "et = (e, tr)" by (cases et)
    from step Return et have st: "nextEventInternal X H l = (Return (e, tr), l')" by simp
    note ix = nextEventInternal_Return_index [OF st]
    have em: "emitted X H (Suc n) l = e # emitted X H n l'"
      using st by simp
    let ?m = "length (filter (\<lambda>e. PCRIndex e = p) (emitted X H n l'))"
    show ?thesis
    proof (cases "PCRIndex e = p")
      case True
      have ni: "nextIndex (indexTracker l') p = nextIndex (indexTracker l) p + 1"
        using ix True by (simp add: nextIndex_def)
      have "map Index (filter (\<lambda>e. PCRIndex e = p) (emitted X H (Suc n) l))
          = Index e # map (\<lambda>k. nextIndex (indexTracker l') p + of_nat k) [0..<?m]"
        using em True Suc.IH [of l'] by simp
      also have "\<dots> = nextIndex (indexTracker l) p
            # map (\<lambda>k. nextIndex (indexTracker l) p + of_nat (Suc k)) [0..<?m]"
        using ix True ni by (simp add: add.assoc)
      also have "\<dots> = map (\<lambda>k. nextIndex (indexTracker l) p + of_nat k) (0 # map Suc [0..<?m])"
        by (simp add: comp_def)
      also have "0 # map Suc [0..<?m] = [0..<Suc ?m]"
        by (simp add: upt_conv_Cons map_Suc_upt del: upt_Suc)
      finally show ?thesis using em True by simp
    next
      case False
      then have "nextIndex (indexTracker l') p = nextIndex (indexTracker l) p"
        using ix by (simp add: nextIndex_def)
      then show ?thesis using em False Suc.IH [of l'] by simp
    qed
  next
    case (Fail err)
    with step have "indexTracker l' = indexTracker l"
      using nextEventInternal_other_index [of X H l res l'] by simp
    moreover have "emitted X H (Suc n) l = emitted X H n l'"
      using step Fail by simp
    ultimately show ?thesis using Suc.IH [of l'] by simp
  next
    case (Panicked pn)
    with step have "indexTracker l' = indexTracker l"
      using nextEventInternal_other_index [of X H l res l'] by simp
    moreover have "emitted X H (Suc n) l = emitted X H n l'"
      using step Panicked by simp
    ultimately show ?thesis using Suc.IH [of l'] by simp
  qed
qed

lemma newLog_fresh:
  "newLogFromReader X H rd opts = (Return l, rd') \<Longrightarrow>
     indexTracker l = (\<lambda>p. None) \<and> \<not> failed l"
  by (auto simp: newLogFromReader_def Let_def
      split: prod.splits result.splits sum.splits if_splits)

lemma unat_of_nat_upt:
  assumes "m \<le> 2 ^ 64"
  shows "map (\<lambda>k. unat (of_nat k :: 64 word)) [0..<m] = [0..<m]"
proof -
  have "unat (of_nat k :: 64 word) = k" if "k < m" for k
    using that assms by (simp add: unat_of_nat)
  then have "map (\<lambda>k. unat (of_nat k :: 64 word)) [0..<m] = map (\<lambda>k. k) [0..<m]"
    by (intro map_cong) auto
  then show ?thesis by simp
qed

text \<open>
  Claim C8. For a log made by \<^verbatim>\<open>newLogFromReader\<close>, any number \<open>n\<close> of calls and
  any PCR \<open>p\<close>: the \<open>Index\<close> fields of the returned events with that PCR index, in the
  order of the calls, are 0, 1, 2, ... up to their number. \<open>Index\<close> is Go's 64-bit
  \<^verbatim>\<open>uint\<close>, so the \<open>k\<close>-th index is \<open>k\<close> as a 64-bit word; read as numbers the indices are
  exactly \<open>0, ..., m - 1\<close> as long as there are at most \<open>2^64\<close> of them.
\<close>

theorem event_index_sequence:
  assumes "newLogFromReader X H rd opts = (Return l, rd')"
  shows "map Index (filter (\<lambda>e. PCRIndex e = p) (emitted X H n l)) =
           map of_nat [0..<length (filter (\<lambda>e. PCRIndex e = p) (emitted X H n l))]
         \<and> (length (filter (\<lambda>e. PCRIndex e = p) (emitted X H n l)) \<le> 2 ^ 64 \<longrightarrow>
              map (\<lambda>e. unat (Index e)) (filter (\<lambda>e. PCRIndex e = p) (emitted X H n l)) =
                [0..<length (filter (\<lambda>e. PCRIndex e = p) (emitted X H n l))])"
proof -
  let ?es = "filter (\<lambda>e. PCRIndex e = p) (emitted X H n l)"
  have a: "map Index ?es = map of_nat [0..<length ?es]"
    using emitted_indices [of p X H n l] newLog_fresh [OF assms]
    by (simp add: nextIndex_def)
  have "map (\<lambda>e. unat (Index e)) ?es = [0..<length ?es]" if "length ?es \<le> 2 ^ 64"
  proof -
    have "map (\<lambda>e. unat (Index e)) ?es = map unat (map Index ?es)"
      by (simp add: comp_def)
    also have "\<dots> = map (\<lambda>k. unat (of_nat k :: 64 word)) [0..<length ?es]"
      by (simp only: a map_map comp_def)
    also have "\<dots> = [0..<length ?es]"
      by (rule unat_of_nat_upt [OF that])
    finally show ?thesis .
  qed
  with a show ?thesis by blast
qed

text \<open>
  The legacy log has two events on PCR 0 and one on PCR 7: four calls return the
  indices 0 and 1 for PCR 0.
\<close>

theorem event_index_sequence_witness:
  "newLogFromReader exampleDecoders tableCrypto (NewReader legacyLog) noGrub
     = (Return legacyOpened, NewReader legacyLog)
   \<and> map PCRIndex (emitted exampleDecoders tableCrypto 4 legacyOpened) = [0, 0, 7]
   \<and> map Index (filter (\<lambda>e. PCRIndex e = 0) (emitted exampleDecoders tableCrypto 4 legacyOpened))
       = [0, 1]
   \<and> map (\<lambda>e. unat (Index e))
        (filter (\<lambda>e. PCRIndex e = 0) (emitted exampleDecoders tableCrypto 4 legacyOpened))
       = [0, 1]"
proof -
  have pc: "map PCRIndex (emitted exampleDecoders tableCrypto 4 legacyOpened) = [0, 0, 7]"
    by (simp add: legacyOpened_def legacyLog_def ev_defs ev_num)
  have "length (filter (\<lambda>e. PCRIndex e = 0) (emitted exampleDecoders tableCrypto 4 legacyOpened))
          = length (filter (\<lambda>p. p = 0) (map PCRIndex (emitted exampleDecoders tableCrypto 4 legacyOpened)))"
    by (simp add: filter_map comp_def)
  then have len: "length (filter (\<lambda>e. PCRIndex e = 0)
                     (emitted exampleDecoders tableCrypto 4 legacyOpened)) = 2"
    by (simp add: pc)
  have up: "[0..<2] = [0, Suc 0]"
    by (simp add: upt_conv_Cons)
  from event_index_sequence [OF legacy_open, of 0 4] legacy_open pc
  show ?thesis
    by (simp add: len up)
qed

section \<open>The digest map of a 2.0 event\<close>

lemma find_alg_Some: "find (\<lambda>a. AlgorithmId a = x) sizes = Some a \<Longrightarrow> x \<in> advertised sizes"
  by (auto simp: advertised_def find_Some_iff)

lemma readDigests_dom:
  "readDigests sizes n rd m = (Inr m', rd') \<Longrightarrow>
     dom m \<subseteq> dom m' \<and> dom m' \<subseteq> dom m \<union> advertised sizes"
proof (induction n arbitrary: rd m)
  case 0
  then show ?case by simp
next
  case (Suc n)
  from Suc.prems obtain x rd1 a dg rd2 where
    a: "find (\<lambda>a. AlgorithmId a = x) sizes = Some a" and
    rec: "readDigests sizes n rd2 (m(x := Some dg)) = (Inr m', rd')"
    by (auto split: prod.splits sum.splits option.splits if_splits)
  have d: "dom (m(x := Some dg)) = insert x (dom m)" by simp
  from Suc.IH [OF rec] have "insert x (dom m) \<subseteq> dom m'"
    and "dom m' \<subseteq> insert x (dom m) \<union> advertised sizes"
    unfolding d by blast+
  with find_alg_Some [OF a] show ?case by blast
qed

lemma missingDigest_None:
  "missingDigest sizes m = None \<longleftrightarrow> advertised sizes \<subseteq> dom m"
  by (auto simp: missingDigest_def advertised_def find_None_iff)

lemma dom_deleteUnknown: "dom (deleteUnknown m) = {a \<in> dom m. isKnownAlgorithm a}"
  by (auto simp: deleteUnknown_def dom_def)

lemma stream_2_Return:
  assumes "readFirstEvent s" and "stream_2_readNextEvent X H s = (Return (e, tr), s')"
  shows "\<exists>m n rd rd'. readDigests (algSizes s) n rd (\<lambda>a. None) = (Inr m, rd') \<and>
           missingDigest (algSizes s) m = None \<and> Digests e = deleteUnknown m"
  using assms
  apply (auto simp: stream_2_readNextEvent_def stream_2_readEventData_def Let_def
      split: prod.splits sum.splits if_splits option.splits list.splits)
  apply blast
  done

lemma stream_2_dom:
  assumes "readFirstEvent s" and "stream_2_readNextEvent X H s = (Return (e, tr), s')"
  shows "dom (Digests e) = {a \<in> advertised (algSizes s). isKnownAlgorithm a}"
proof -
  from stream_2_Return [OF assms] obtain m n rd rd' where
    rdg: "readDigests (algSizes s) n rd (\<lambda>a. None) = (Inr m, rd')" and
    mis: "missingDigest (algSizes s) m = None" and
    dg: "Digests e = deleteUnknown m"
    by blast
  from readDigests_dom [OF rdg] have "dom m \<subseteq> advertised (algSizes s)" by simp
  moreover from mis have "advertised (algSizes s) \<subseteq> dom m" by (simp add: missingDigest_None)
  ultimately have "dom m = advertised (algSizes s)" by blast
  with dg show ?thesis by (simp add: dom_deleteUnknown)
qed

section \<open>Reading an encoded record\<close>

lemma split256: "k * (x mod 256) + (k * 256) * (x div 256) = k * (x::nat)"
proof -
  have "k * (x mod 256) + (k * 256) * (x div 256) = k * (x mod 256 + 256 * (x div 256))"
    by (simp only: distrib_left mult.assoc)
  also have "\<dots> = k * x"
    by (simp only: mod_mult_div_eq)
  finally show ?thesis .
qed

lemma bytes32_nat:
  "(n::nat) mod 256 + (256 * (n div 256 mod 256) + (65536 * (n div 65536 mod 256)
       + 16777216 * (n div 16777216))) = n"
proof -
  have d2: "n div 65536 = n div 256 div 256"
    using div_mult2_eq [of n 256 256] by simp
  have d3: "n div 16777216 = n div 65536 div 256"
    using div_mult2_eq [of n 65536 256] by simp
  have s3: "65536 * (n div 65536 mod 256) + 16777216 * (n div 16777216) = 65536 * (n div 65536)"
    unfolding d3 using split256 [of 65536 "n div 65536"] by simp
  have s2: "256 * (n div 256 mod 256) + 65536 * (n div 65536) = 256 * (n div 256)"
    unfolding d2 using split256 [of 256 "n div 256"] by simp
  have s1: "n mod 256 + 256 * (n div 256) = n"
    using split256 [of 1 n] by simp
  show ?thesis
    by (simp only: s3 s2 s1)
qed

lemma le_word_PutUint32: "(le_word (PutUint32 v) :: 32 word) = v"
proof -
  have v: "unat v < 4294967296" using unsigned_less [of v, where 'a = nat] by simp
  have a: "unat (ucast (ucast v :: 8 word) :: 32 word) = unat v mod 256"
    by (simp add: unsigned_ucast_eq take_bit_eq_mod unat_mod_distrib)
  have b: "unat (ucast (ucast (drop_bit 8 v) :: 8 word) :: 32 word) = unat v div 256 mod 256"
    by (simp add: unsigned_ucast_eq take_bit_eq_mod unat_drop_bit_eq drop_bit_eq_div
        unat_mod_distrib unat_div_distrib)
  have c: "unat (ucast (ucast (drop_bit 16 v) :: 8 word) :: 32 word) = unat v div 65536 mod 256"
    by (simp add: unsigned_ucast_eq take_bit_eq_mod unat_drop_bit_eq drop_bit_eq_div
        unat_mod_distrib unat_div_distrib)
  have d: "unat (ucast (ucast (drop_bit 24 v) :: 8 word) :: 32 word) = unat v div 16777216"
    using v by (simp add: unsigned_ucast_eq take_bit_eq_mod unat_drop_bit_eq drop_bit_eq_div
        unat_mod_distrib unat_div_distrib)
  have "unat (le_word (PutUint32 v) :: 32 word) =
     (unat v mod 256 + (256 * (unat v div 256 mod 256) + (65536 * (unat v div 65536 mod 256)
       + 16777216 * (unat v div 16777216)))) mod 4294967296"
    by (simp add: PutUint32_def unat_word_ariths a b c d mod_simps)
  also have "\<dots> = unat v"
    using v by (simp only: bytes32_nat mod_less)
  finally show ?thesis by (simp add: word_unat_eq_iff)
qed

lemma le_word_PutUint16: "(le_word (PutUint16 v) :: 16 word) = v"
proof -
  have v: "unat v < 65536" using unsigned_less [of v, where 'a = nat] by simp
  have a: "unat (ucast (ucast v :: 8 word) :: 16 word) = unat v mod 256"
    by (simp add: unsigned_ucast_eq take_bit_eq_mod unat_mod_distrib)
  have b: "unat (ucast (ucast (drop_bit 8 v) :: 8 word) :: 16 word) = unat v div 256"
    using v by (simp add: unsigned_ucast_eq take_bit_eq_mod unat_drop_bit_eq drop_bit_eq_div
        unat_mod_distrib unat_div_distrib)
  have "unat (le_word (PutUint16 v) :: 16 word) = unat v"
    using v by (simp add: PutUint16_def unat_word_ariths a b)
  then show ?thesis by (simp add: word_unat_eq_iff)
qed

lemma ReadFull_framed:
  assumes "remaining rd = bs @ post"
  shows "ReadFull rd (length bs) = (Inr bs, rd\<lparr>off := off rd + length bs\<rparr>)"
    and "remaining (rd\<lparr>off := off rd + length bs\<rparr>) = post"
proof -
  have len: "length (remaining rd) = length (buf rd) - off rd"
    by (simp add: remaining_def)
  show "ReadFull rd (length bs) = (Inr bs, rd\<lparr>off := off rd + length bs\<rparr>)"
  proof (cases "bs = []")
    case True
    then show ?thesis by (simp add: ReadFull_def)
  next
    case False
    with assms len have "off rd < length (buf rd)" and "length bs \<le> length (remaining rd)"
      by (cases "off rd < length (buf rd)"; simp)+
    with False assms show ?thesis by (simp add: ReadFull_def)
  qed
  have "drop (off rd + length bs) (buf rd) = drop (length bs) (remaining rd)"
    by (simp add: remaining_def add.commute)
  with assms show "remaining (rd\<lparr>off := off rd + length bs\<rparr>) = post"
    by (simp add: remaining_def)
qed

lemma length_PutUint32: "length (PutUint32 v) = 4"
  by (simp add: PutUint32_def)

lemma length_PutUint16: "length (PutUint16 v) = 2"
  by (simp add: PutUint16_def)

lemma readUint32_framed:
  assumes "remaining rd = PutUint32 v @ post"
  shows "readUint32 rd = (Inr v, rd\<lparr>off := off rd + 4\<rparr>)"
    and "remaining (rd\<lparr>off := off rd + 4\<rparr>) = post"
proof -
  from ReadFull_framed [OF assms]
  have a: "ReadFull rd 4 = (Inr (PutUint32 v), rd\<lparr>off := off rd + 4\<rparr>)"
    and b: "remaining (rd\<lparr>off := off rd + 4\<rparr>) = post"
    unfolding length_PutUint32 by this+
  show "readUint32 rd = (Inr v, rd\<lparr>off := off rd + 4\<rparr>)"
    unfolding readUint32_def a by (simp add: le_word_PutUint32)
  show "remaining (rd\<lparr>off := off rd + 4\<rparr>) = post" by (rule b)
qed

lemma readUint16_framed:
  assumes "remaining rd = PutUint16 v @ post"
  shows "readUint16 rd = (Inr v, rd\<lparr>off := off rd + 2\<rparr>)"
    and "remaining (rd\<lparr>off := off rd + 2\<rparr>) = post"
proof -
  from ReadFull_framed [OF assms]
  have a: "ReadFull rd 2 = (Inr (PutUint16 v), rd\<lparr>off := off rd + 2\<rparr>)"
    and b: "remaining (rd\<lparr>off := off rd + 2\<rparr>) = post"
    unfolding length_PutUint16 by this+
  show "readUint16 rd = (Inr v, rd\<lparr>off := off rd + 2\<rparr>)"
    unfolding readUint16_def a by (simp add: le_word_PutUint16)
  show "remaining (rd\<lparr>off := off rd + 2\<rparr>) = post" by (rule b)
qed

text \<open>The digest loop on an encoded digest list.\<close>

lemma readDigests_framed:
  assumes "remaining rd = encodeDigests ds @ post" and "wellSized sizes ds"
  shows "case collectDigests (advertised sizes) m ds of
           Inl e \<Rightarrow> \<exists>rd'. readDigests sizes (length ds) rd m = (Inl e, rd')
         | Inr m' \<Rightarrow> readDigests sizes (length ds) rd m
                       = (Inr m', rd\<lparr>off := off rd + length (encodeDigests ds)\<rparr>)
                     \<and> remaining (rd\<lparr>off := off rd + length (encodeDigests ds)\<rparr>) = post"
  using assms
proof (induction ds arbitrary: rd m)
  case Nil
  then show ?case by (simp add: encodeDigests_def)
next
  case (Cons x ds)
  obtain alg d where x: "x = (alg, d)" by (cases x)
  from Cons.prems(1) x have fr: "remaining rd = PutUint16 alg @ (d @ encodeDigests ds @ post)"
    by (simp add: encodeDigests_def)
  note r16 = readUint16_framed [OF fr]
  let ?rd1 = "rd\<lparr>off := off rd + 2\<rparr>"
  show ?case
  proof (cases "find (\<lambda>a. AlgorithmId a = alg) sizes")
    case None
    then have "alg \<notin> advertised sizes"
      by (auto simp: advertised_def find_None_iff)
    with None r16 x show ?thesis by simp
  next
    case (Some a)
    then have adv: "alg \<in> advertised sizes"
      by (auto simp: advertised_def find_Some_iff)
    from Cons.prems(2) x Some have ld: "unat (DigestSize a) = length d"
      by (simp add: wellSized_def)
    from r16(2) have fr2: "remaining ?rd1 = d @ (encodeDigests ds @ post)" by simp
    note rf = ReadFull_framed [OF fr2]
    let ?rd2 = "?rd1\<lparr>off := off ?rd1 + length d\<rparr>"
    have ws: "wellSized sizes ds"
      using Cons.prems(2) by (simp add: wellSized_def)
    have off2: "?rd2\<lparr>off := off ?rd2 + length (encodeDigests ds)\<rparr>
                = rd\<lparr>off := off rd + length (encodeDigests (x # ds))\<rparr>"
      using x by (simp add: encodeDigests_def length_PutUint16 add.assoc)
    show ?thesis
    proof (cases "m alg")
      case None
      from Cons.IH [OF rf(2) ws, of "m(alg := Some d)"] None adv x Some r16(1) rf(1) ld off2
      show ?thesis
        by (auto simp: fun_upd_def split: sum.splits)
    next
      case (Some dg)
      with adv x \<open>find (\<lambda>a. AlgorithmId a = alg) sizes = Some a\<close> r16(1) rf(1) ld
      show ?thesis by simp
    qed
  qed
qed

section \<open>The digest list against the advertised algorithms\<close>

lemma distinct_count_le_1: "distinct xs \<Longrightarrow> count_list xs x \<le> 1"
  by (induction xs) (auto simp: count_list_0_iff)

lemma collectDigests_Inr:
  "collectDigests adv m ds = Inr m' \<Longrightarrow>
     fst ` set ds \<subseteq> adv \<and> distinct (map fst ds) \<and> dom m \<inter> fst ` set ds = {}
     \<and> dom m' = dom m \<union> fst ` set ds
     \<and> (\<forall>(a, d) \<in> set ds. m' a = Some d) \<and> (\<forall>a. a \<notin> fst ` set ds \<longrightarrow> m' a = m a)"
proof (induction ds arbitrary: m)
  case Nil
  then show ?case by simp
next
  case (Cons x ds)
  obtain alg d where x: "x = (alg, d)" by (cases x)
  from Cons.prems x have adv: "alg \<in> adv" and free: "m alg = None"
    and rec: "collectDigests adv (m(alg := Some d)) ds = Inr m'"
    by (auto split: if_splits)
  have dm: "dom (m(alg := Some d)) = insert alg (dom m)" by simp
  from Cons.IH [OF rec] have ih:
    "fst ` set ds \<subseteq> adv" "distinct (map fst ds)"
    "insert alg (dom m) \<inter> fst ` set ds = {}"
    "dom m' = insert alg (dom m) \<union> fst ` set ds"
    "\<forall>(a, d) \<in> set ds. m' a = Some d"
    "\<forall>a. a \<notin> fst ` set ds \<longrightarrow> m' a = (m(alg := Some d)) a"
    unfolding dm by blast+
  from ih(3) have nin: "alg \<notin> fst ` set ds" by blast
  with ih(6) have "m' alg = Some d" by simp
  moreover from free have "alg \<notin> dom m" by (simp add: dom_def)
  ultimately show ?case
    using x adv ih nin by (auto simp: dom_def)
qed

lemma collectDigests_Inl:
  "collectDigests adv m ds = Inl e \<Longrightarrow>
     (\<exists>a. e = UnrecognizedAlgorithm a \<and> a \<in> fst ` set ds \<and> a \<notin> adv)
     \<or> (\<exists>a. e = DuplicateDigest a \<and> a \<in> adv \<and> a \<in> fst ` set ds
            \<and> (a \<in> dom m \<or> 2 \<le> count_list (map fst ds) a))"
proof (induction ds arbitrary: m)
  case Nil
  then show ?case by simp
next
  case (Cons x ds)
  obtain alg d where x: "x = (alg, d)" by (cases x)
  show ?case
  proof (cases "alg \<in> adv")
    case False
    with Cons.prems x show ?thesis by auto
  next
    case True
    show ?thesis
    proof (cases "m alg")
      case (Some dg)
      with True Cons.prems x show ?thesis by (auto simp: dom_def)
    next
      case None
      with True Cons.prems x have rec: "collectDigests adv (m(alg := Some d)) ds = Inl e"
        by simp
      have dm: "dom (m(alg := Some d)) = insert alg (dom m)" by simp
      from Cons.IH [OF rec] have
        "(\<exists>a. e = UnrecognizedAlgorithm a \<and> a \<in> fst ` set ds \<and> a \<notin> adv)
         \<or> (\<exists>a. e = DuplicateDigest a \<and> a \<in> adv \<and> a \<in> fst ` set ds
            \<and> (a \<in> insert alg (dom m) \<or> 2 \<le> count_list (map fst ds) a))"
        unfolding dm .
      then consider
          (unrec) a where "e = UnrecognizedAlgorithm a" "a \<in> fst ` set ds" "a \<notin> adv"
        | (dup) a where "e = DuplicateDigest a" "a \<in> adv" "a \<in> fst ` set ds"
            "a \<in> insert alg (dom m) \<or> 2 \<le> count_list (map fst ds) a"
        by blast
      then show ?thesis
      proof cases
        case unrec
        with x show ?thesis by auto
      next
        case dup
        from dup(3) have c1: "1 \<le> count_list (map fst ds) a"
          using count_list_0_iff [of "map fst ds" a] by (cases "count_list (map fst ds) a") auto
        show ?thesis
        proof (cases "a = alg")
          case True
          with c1 have "2 \<le> count_list (map fst (x # ds)) a"
            using x by simp
          with dup x show ?thesis by auto
        next
          case False
          with dup(4) have "a \<in> dom m \<or> 2 \<le> count_list (map fst (x # ds)) a"
            using x by auto
          with dup x show ?thesis by auto
        qed
      qed
    qed
  qed
qed

text \<open>The digest list is accepted exactly when its algorithms are the advertised ones, once each.\<close>

lemma collectDigests_ok_iff:
  "(\<exists>m'. collectDigests adv (\<lambda>a. None) ds = Inr m') \<longleftrightarrow>
     fst ` set ds \<subseteq> adv \<and> distinct (map fst ds)"
proof
  assume "\<exists>m'. collectDigests adv (\<lambda>a. None) ds = Inr m'"
  then show "fst ` set ds \<subseteq> adv \<and> distinct (map fst ds)"
    using collectDigests_Inr by blast
next
  assume ok: "fst ` set ds \<subseteq> adv \<and> distinct (map fst ds)"
  show "\<exists>m'. collectDigests adv (\<lambda>a. None) ds = Inr m'"
  proof (cases "collectDigests adv (\<lambda>a. None) ds")
    case (Inr m')
    then show ?thesis by blast
  next
    case (Inl e)
    from collectDigests_Inl [OF Inl] consider
        (unrec) a where "a \<in> fst ` set ds" "a \<notin> adv"
      | (dup) a where "2 \<le> count_list (map fst ds) a"
      by (auto simp: dom_def)
    then have False
    proof cases
      case unrec
      with ok show False by blast
    next
      case dup
      moreover from ok have "distinct (map fst ds)" ..
      then have "count_list (map fst ds) a \<le> 1"
        by (rule distinct_count_le_1)
      ultimately show False by simp
    qed
    then show ?thesis ..
  qed
qed


lemma unat_of_nat_32: "n < 2 ^ 32 \<Longrightarrow> unat (of_nat n :: 32 word) = n"
  by (simp add: unat_of_nat)

lemma readEventData_framed:
  assumes fr: "remaining r4 = PutUint32 (of_nat (length dat)) @ dat @ post"
    and ln: "length dat < 2 ^ 32"
  shows "stream_2_readEventData X H s pcrIndex eventType digests r4 =
     (case algSizes s of
        [] \<Rightarrow> (Panicked IndexOutOfRange, s\<lparr>r := r4\<lparr>off := off r4 + 4 + length dat\<rparr>\<rparr>)
      | a0 # _ \<Rightarrow>
     (case isDigestOfSeparatorErrorValue H (digestOf digests (AlgorithmId a0)) (AlgorithmId a0) of
        Inl p \<Rightarrow> (Panicked p, s\<lparr>r := r4\<lparr>off := off r4 + 4 + length dat\<rparr>\<rparr>)
      | Inr isError \<Rightarrow>
     (case decodeEventData X pcrIndex eventType dat (options s) isError of
        (d, trailing) \<Rightarrow>
          (Return (\<lparr>Index = 0, PCRIndex = pcrIndex, EventType = eventType,
                    Digests = digests, Data = d\<rparr>, trailing),
           s\<lparr>r := r4\<lparr>off := off r4 + 4 + length dat\<rparr>\<rparr>))))"
    and "remaining (r4\<lparr>off := off r4 + 4 + length dat\<rparr>) = post"
proof -
  note r32 = readUint32_framed [OF fr]
  note rf = ReadFull_framed [OF r32(2)]
  have o: "r4\<lparr>off := off r4 + 4\<rparr>\<lparr>off := off (r4\<lparr>off := off r4 + 4\<rparr>) + length dat\<rparr>
            = r4\<lparr>off := off r4 + 4 + length dat\<rparr>"
    by simp
  from rf(2) show "remaining (r4\<lparr>off := off r4 + 4 + length dat\<rparr>) = post"
    unfolding o .
  from rf(1) have rf1: "ReadFull (r4\<lparr>off := off r4 + 4\<rparr>) (length dat)
                       = (Inr dat, r4\<lparr>off := off r4 + 4 + length dat\<rparr>)"
    unfolding o .
  show "stream_2_readEventData X H s pcrIndex eventType digests r4 =
     (case algSizes s of
        [] \<Rightarrow> (Panicked IndexOutOfRange, s\<lparr>r := r4\<lparr>off := off r4 + 4 + length dat\<rparr>\<rparr>)
      | a0 # _ \<Rightarrow>
     (case isDigestOfSeparatorErrorValue H (digestOf digests (AlgorithmId a0)) (AlgorithmId a0) of
        Inl p \<Rightarrow> (Panicked p, s\<lparr>r := r4\<lparr>off := off r4 + 4 + length dat\<rparr>\<rparr>)
      | Inr isError \<Rightarrow>
     (case decodeEventData X pcrIndex eventType dat (options s) isError of
        (d, trailing) \<Rightarrow>
          (Return (\<lparr>Index = 0, PCRIndex = pcrIndex, EventType = eventType,
                    Digests = digests, Data = d\<rparr>, trailing),
           s\<lparr>r := r4\<lparr>off := off r4 + 4 + length dat\<rparr>\<rparr>))))"
    unfolding stream_2_readEventData_def r32(1)
    by (simp add: unat_of_nat_32 [OF ln] rf1)
qed

lemma stream_2_framed:
  assumes rf: "readFirstEvent s"
    and fr: "remaining (r s) = PutUint32 pcrIndex @ PutUint32 eventType
               @ PutUint32 (of_nat (length ds)) @ encodeDigests ds @ post"
    and pr: "isPCRIndexInRange pcrIndex"
    and ln: "length ds < 2 ^ 32"
    and ws: "wellSized (algSizes s) ds"
  shows "case collectDigests (advertised (algSizes s)) (\<lambda>a. None) ds of
           Inl e \<Rightarrow> \<exists>s'. stream_2_readNextEvent X H s = (Fail e, s')
         | Inr m \<Rightarrow>
             (case missingDigest (algSizes s) m of
                Some a \<Rightarrow> \<exists>s'. stream_2_readNextEvent X H s = (Fail (MissingDigest a), s')
              | None \<Rightarrow>
                  stream_2_readNextEvent X H s =
                    stream_2_readEventData X H s pcrIndex eventType (deleteUnknown m)
                      ((r s)\<lparr>off := off (r s) + 12 + length (encodeDigests ds)\<rparr>)
                  \<and> remaining ((r s)\<lparr>off := off (r s) + 12 + length (encodeDigests ds)\<rparr>) = post)"
proof -
  note a = readUint32_framed [OF fr]
  note b = readUint32_framed [OF a(2)]
  note c = readUint32_framed [OF b(2)]
  let ?r3 = "(r s)\<lparr>off := off (r s) + 12\<rparr>"
  have o3: "(r s)\<lparr>off := off (r s) + 4\<rparr>\<lparr>off := off ((r s)\<lparr>off := off (r s) + 4\<rparr>) + 4\<rparr>
              \<lparr>off := off ((r s)\<lparr>off := off (r s) + 4\<rparr>\<lparr>off := off ((r s)\<lparr>off := off (r s) + 4\<rparr>) + 4\<rparr>) + 4\<rparr>
            = ?r3"
    by simp
  from c(2) have fr3: "remaining ?r3 = encodeDigests ds @ post" unfolding o3 .
  have hd: "stream_2_readNextEvent X H s =
     (case readDigests (algSizes s) (length ds) ?r3 (\<lambda>alg. None) of
        (Inl err, r4) \<Rightarrow> (Fail err, s\<lparr>r := r4\<rparr>)
      | (Inr allDigests, r4) \<Rightarrow>
     (case missingDigest (algSizes s) allDigests of
        Some alg \<Rightarrow> (Fail (MissingDigest alg), s\<lparr>r := r4\<rparr>)
      | None \<Rightarrow>
          stream_2_readEventData X H s pcrIndex eventType (deleteUnknown allDigests) r4))"
    using rf pr a(1) b(1) c(1)
    by (simp add: stream_2_readNextEvent_def unat_of_nat_32 [OF ln] add.commute)
  have o4: "?r3\<lparr>off := off ?r3 + length (encodeDigests ds)\<rparr>
            = (r s)\<lparr>off := off (r s) + 12 + length (encodeDigests ds)\<rparr>"
    by simp
  from readDigests_framed [OF fr3 ws, of "\<lambda>a. None"] show ?thesis
    unfolding hd o4
    by (auto split: sum.splits option.splits)
qed

lemma missingDigest_Some:
  "missingDigest sizes m = Some a \<Longrightarrow> a \<in> advertised sizes \<and> m a = None"
  by (auto simp: missingDigest_def advertised_def find_Some_iff)

lemma readEventData_no_digest_error:
  "stream_2_readEventData X H s p t dg r4 = (Fail e, s') \<Longrightarrow> \<exists>c. e = LogReadError c"
  by (auto simp: stream_2_readEventData_def wrapLogReadError_def
      split: prod.splits sum.splits list.splits if_splits)

text \<open>What the reader returns on an encoded record, by the verdict on its digest list.\<close>

lemma stream_2_digest_errors:
  assumes rf: "readFirstEvent s"
    and fr: "remaining (r s) = PutUint32 pcrIndex @ PutUint32 eventType
               @ PutUint32 (of_nat (length ds)) @ encodeDigests ds @ post"
    and pr: "isPCRIndexInRange pcrIndex"
    and ln: "length ds < 2 ^ 32"
    and ws: "wellSized (algSizes s) ds"
  shows "(\<exists>s'. stream_2_readNextEvent X H s = (Fail (UnrecognizedAlgorithm a), s')) \<longleftrightarrow>
           collectDigests (advertised (algSizes s)) (\<lambda>a. None) ds = Inl (UnrecognizedAlgorithm a)"
    and "(\<exists>s'. stream_2_readNextEvent X H s = (Fail (DuplicateDigest a), s')) \<longleftrightarrow>
           collectDigests (advertised (algSizes s)) (\<lambda>a. None) ds = Inl (DuplicateDigest a)"
    and "(\<exists>s'. stream_2_readNextEvent X H s = (Fail (MissingDigest a), s')) \<longleftrightarrow>
           (\<exists>m. collectDigests (advertised (algSizes s)) (\<lambda>a. None) ds = Inr m
                \<and> missingDigest (algSizes s) m = Some a)"
proof -
  note fm = stream_2_framed [OF rf fr pr ln ws, of X H]
  let ?c = "collectDigests (advertised (algSizes s)) (\<lambda>a. None) ds"
  have shape: "(\<exists>b. e = UnrecognizedAlgorithm b) \<or> (\<exists>b. e = DuplicateDigest b)"
    if "?c = Inl e" for e
    using collectDigests_Inl [OF that] by blast
  have tail: "stream_2_readNextEvent X H s \<noteq> (Fail (UnrecognizedAlgorithm b), s')
            \<and> stream_2_readNextEvent X H s \<noteq> (Fail (DuplicateDigest b), s')
            \<and> stream_2_readNextEvent X H s \<noteq> (Fail (MissingDigest b), s')"
    if "?c = Inr m" "missingDigest (algSizes s) m = None" for m b s'
  proof -
    from fm that have eq: "stream_2_readNextEvent X H s =
        stream_2_readEventData X H s pcrIndex eventType (deleteUnknown m)
          ((r s)\<lparr>off := off (r s) + 12 + length (encodeDigests ds)\<rparr>)"
      by simp
    show ?thesis
      unfolding eq
      using readEventData_no_digest_error [of X H s pcrIndex eventType "deleteUnknown m"
          "(r s)\<lparr>off := off (r s) + 12 + length (encodeDigests ds)\<rparr>" _ s']
      by auto
  qed
  show "(\<exists>s'. stream_2_readNextEvent X H s = (Fail (UnrecognizedAlgorithm a), s')) \<longleftrightarrow>
           ?c = Inl (UnrecognizedAlgorithm a)"
  proof (cases ?c)
    case (Inl e)
    with fm shape [OF Inl] show ?thesis by auto
  next
    case (Inr m)
    with fm tail [OF Inr] show ?thesis
      by (cases "missingDigest (algSizes s) m") auto
  qed
  show "(\<exists>s'. stream_2_readNextEvent X H s = (Fail (DuplicateDigest a), s')) \<longleftrightarrow>
           ?c = Inl (DuplicateDigest a)"
  proof (cases ?c)
    case (Inl e)
    with fm shape [OF Inl] show ?thesis by auto
  next
    case (Inr m)
    with fm tail [OF Inr] show ?thesis
      by (cases "missingDigest (algSizes s) m") auto
  qed
  show "(\<exists>s'. stream_2_readNextEvent X H s = (Fail (MissingDigest a), s')) \<longleftrightarrow>
           (\<exists>m. ?c = Inr m \<and> missingDigest (algSizes s) m = Some a)"
  proof (cases ?c)
    case (Inl e)
    with fm shape [OF Inl] show ?thesis by auto
  next
    case (Inr m)
    with fm tail [OF Inr] show ?thesis
      by (cases "missingDigest (algSizes s) m") auto
  qed
qed

lemma nextEventInternal_Fail_iff:
  assumes "\<not> failed l" and "err \<noteq> EOF"
  shows "(\<exists>l'. nextEventInternal X H l = (Fail err, l')) \<longleftrightarrow>
         (\<exists>st. readNextEvent X H (stream l) = (Fail err, st))"
  using assms
  by (auto simp: nextEventInternal_def Let_def fixup_no_panic
      split: if_splits prod.splits result.splits option.splits sum.splits)

lemma readNextEvent_Stream_2:
  "(\<exists>st. readNextEvent X H (Stream_2 s) = (res, st)) \<longleftrightarrow>
     (\<exists>s'. stream_2_readNextEvent X H s = (res, s'))"
  by (auto simp: readNextEvent_def split: prod.splits)

lemma find_map_alg:
  "find P (map f xs) = map_option f (find (\<lambda>x. P (f x)) xs)"
  by (induction xs) auto

lemma missingDigest_spec:
  assumes "collectDigests adv (\<lambda>a. None) ds = Inr m"
  shows "missingDigest sizes m = find (\<lambda>a. a \<notin> fst ` set ds) (map AlgorithmId sizes)"
proof -
  from collectDigests_Inr [OF assms] have "dom m = fst ` set ds" by simp
  then have "m a = None \<longleftrightarrow> a \<notin> fst ` set ds" for a
    by (metis domIff)
  then show ?thesis
    by (simp add: missingDigest_def find_map_alg)
qed

lemma stream_2_verdict:
  assumes rf: "readFirstEvent s"
    and fr: "remaining (r s) = PutUint32 pcrIndex @ PutUint32 eventType
               @ PutUint32 (of_nat (length ds)) @ encodeDigests ds @ post"
    and pr: "isPCRIndexInRange pcrIndex"
    and ln: "length ds < 2 ^ 32"
    and ws: "wellSized (algSizes s) ds"
    and de: "e = UnrecognizedAlgorithm a \<or> e = DuplicateDigest a \<or> e = MissingDigest a"
  shows "(\<exists>s'. stream_2_readNextEvent X H s = (Fail e, s')) \<longleftrightarrow>
           digestListVerdict (algSizes s) ds = Some e"
proof -
  note de3 = stream_2_digest_errors [OF rf fr pr ln ws, of X H a]
  let ?c = "collectDigests (advertised (algSizes s)) (\<lambda>a. None) ds"
  have shape: "(\<exists>b. e' = UnrecognizedAlgorithm b) \<or> (\<exists>b. e' = DuplicateDigest b)"
    if "?c = Inl e'" for e'
    using collectDigests_Inl [OF that] by blast
  show ?thesis
  proof (cases ?c)
    case (Inl e')
    with de de3 shape [OF Inl] show ?thesis
      by (auto simp: digestListVerdict_def)
  next
    case (Inr m)
    with de de3 missingDigest_spec [OF Inr, of "algSizes s"] show ?thesis
      by (auto simp: digestListVerdict_def)
  qed
qed

lemma verdict_None_iff:
  "digestListVerdict sizes ds = None \<longleftrightarrow>
     fst ` set ds = advertised sizes \<and> distinct (map fst ds)"
proof (cases "collectDigests (advertised sizes) (\<lambda>a. None) ds")
  case (Inl e)
  with collectDigests_ok_iff [of "advertised sizes" ds] show ?thesis
    by (auto simp: digestListVerdict_def)
next
  case (Inr m)
  with collectDigests_ok_iff [of "advertised sizes" ds]
  have ok: "fst ` set ds \<subseteq> advertised sizes" "distinct (map fst ds)" by blast+
  have "find (\<lambda>a. a \<notin> fst ` set ds) (map AlgorithmId sizes) = None
          \<longleftrightarrow> advertised sizes \<subseteq> fst ` set ds"
    by (auto simp: find_None_iff advertised_def)
  with Inr ok show ?thesis
    by (auto simp: digestListVerdict_def)
qed

lemma verdict_Some:
  assumes "digestListVerdict sizes ds = Some e"
  shows "(\<exists>a. e = UnrecognizedAlgorithm a \<and> a \<in> fst ` set ds \<and> a \<notin> advertised sizes)
       \<or> (\<exists>a. e = DuplicateDigest a \<and> a \<in> advertised sizes \<and> 2 \<le> count_list (map fst ds) a)
       \<or> (\<exists>a. e = MissingDigest a \<and> a \<in> advertised sizes \<and> a \<notin> fst ` set ds
              \<and> fst ` set ds \<subseteq> advertised sizes \<and> distinct (map fst ds))"
proof (cases "collectDigests (advertised sizes) (\<lambda>a. None) ds")
  case (Inl e')
  with assms have "e' = e" by (simp add: digestListVerdict_def)
  with collectDigests_Inl [OF Inl] show ?thesis by (auto simp: dom_def)
next
  case (Inr m)
  with assms obtain a where e: "e = MissingDigest a"
    and f: "find (\<lambda>a. a \<notin> fst ` set ds) (map AlgorithmId sizes) = Some a"
    by (auto simp: digestListVerdict_def)
  from f have "a \<in> advertised sizes" "a \<notin> fst ` set ds"
    by (auto simp: find_Some_iff advertised_def)
  with e collectDigests_Inr [OF Inr] show ?thesis by simp
qed

lemma stream_2_framed_not_EOF:
  assumes rf: "readFirstEvent s"
    and fr: "remaining (r s) = PutUint32 pcrIndex @ post"
  shows "stream_2_readNextEvent X H s \<noteq> (Fail EOF, s')"
proof -
  have "length (remaining (r s)) = length (buf (r s)) - off (r s)"
    by (simp add: remaining_def)
  with fr have "\<not> length (buf (r s)) \<le> off (r s)"
    by (simp add: length_PutUint32)
  with stream_2_EOF_later [OF rf, of X H s'] show ?thesis by simp
qed

lemma nextEventInternal_Stream_2_Fail:
  assumes st: "stream l = Stream_2 s" and nf: "\<not> failed l"
  shows "(\<exists>l'. nextEventInternal X H l = (Fail e, l')) \<longleftrightarrow>
           (\<exists>s'. stream_2_readNextEvent X H s = (Fail e, s'))"
  using assms
  by (auto simp: nextEventInternal_def readNextEvent_def Let_def fixup_no_panic
      split: if_splits prod.splits result.splits option.splits sum.splits)

text \<open>
  Claim C3. A log with a 2.0 reader that has read its first event stands before an
  encoded record: PCR index, event type, digest count and the digest list \<open>ds\<close>, each
  digest of an advertised algorithm with the advertised length. Then for each of the three
  digest errors \<open>e\<close>: the call fails with \<open>e\<close> exactly when \<open>e\<close> is the verdict of the
  specification's rules on the list, and then the failed flag is set. There is no verdict
  exactly when the algorithms of the list are the advertised ones, once each. A verdict
  of an unrecognised algorithm names an algorithm of the list that is not advertised; a
  duplicate digest names an advertised algorithm that the list has twice; a missing digest
  names an advertised algorithm that the list does not have, and only comes when all
  entries were read without one of the other two errors.
\<close>

theorem digest_list_errors:
  assumes st: "stream l = Stream_2 s" and nf: "\<not> failed l"
    and rf: "readFirstEvent s"
    and fr: "remaining (r s) = PutUint32 pcrIndex @ PutUint32 eventType
               @ PutUint32 (of_nat (length ds)) @ encodeDigests ds @ post"
    and pr: "isPCRIndexInRange pcrIndex"
    and ln: "length ds < 2 ^ 32"
    and ws: "wellSized (algSizes s) ds"
  shows "(\<forall>e. (\<exists>a. e = UnrecognizedAlgorithm a \<or> e = DuplicateDigest a \<or> e = MissingDigest a) \<longrightarrow>
            ((\<exists>l'. nextEventInternal X H l = (Fail e, l'))
               \<longleftrightarrow> digestListVerdict (algSizes s) ds = Some e)
            \<and> (\<forall>l'. nextEventInternal X H l = (Fail e, l') \<longrightarrow> failed l'))
       \<and> (digestListVerdict (algSizes s) ds = None \<longleftrightarrow>
            fst ` set ds = advertised (algSizes s) \<and> distinct (map fst ds))
       \<and> (\<forall>a. digestListVerdict (algSizes s) ds = Some (UnrecognizedAlgorithm a) \<longrightarrow>
               a \<in> fst ` set ds \<and> a \<notin> advertised (algSizes s))
       \<and> (\<forall>a. digestListVerdict (algSizes s) ds = Some (DuplicateDigest a) \<longrightarrow>
               a \<in> advertised (algSizes s) \<and> 2 \<le> count_list (map fst ds) a)
       \<and> (\<forall>a. digestListVerdict (algSizes s) ds = Some (MissingDigest a) \<longrightarrow>
               a \<in> advertised (algSizes s) \<and> a \<notin> fst ` set ds
               \<and> fst ` set ds \<subseteq> advertised (algSizes s) \<and> distinct (map fst ds))"
proof -
  have p1: "((\<exists>l'. nextEventInternal X H l = (Fail e, l'))
               \<longleftrightarrow> digestListVerdict (algSizes s) ds = Some e)
            \<and> (\<forall>l'. nextEventInternal X H l = (Fail e, l') \<longrightarrow> failed l')"
    if de: "e = UnrecognizedAlgorithm a \<or> e = DuplicateDigest a \<or> e = MissingDigest a" for e a
  proof -
    have "(\<exists>l'. nextEventInternal X H l = (Fail e, l'))
            \<longleftrightarrow> (\<exists>s'. stream_2_readNextEvent X H s = (Fail e, s'))"
      by (rule nextEventInternal_Stream_2_Fail [OF st nf])
    also have "\<dots> \<longleftrightarrow> digestListVerdict (algSizes s) ds = Some e"
      by (rule stream_2_verdict [OF rf fr pr ln ws de])
    finally have a: "(\<exists>l'. nextEventInternal X H l = (Fail e, l'))
            \<longleftrightarrow> digestListVerdict (algSizes s) ds = Some e" .
    have ne: "e \<noteq> EOF" using de by auto
    have "failed l'" if "nextEventInternal X H l = (Fail e, l')" for l'
      using sticky_failure_step [OF that ne] .
    with a show ?thesis by blast
  qed
  have p2: "digestListVerdict (algSizes s) ds = None \<longleftrightarrow>
            fst ` set ds = advertised (algSizes s) \<and> distinct (map fst ds)"
    by (rule verdict_None_iff)
  have p3: "a \<in> fst ` set ds \<and> a \<notin> advertised (algSizes s)"
    if "digestListVerdict (algSizes s) ds = Some (UnrecognizedAlgorithm a)" for a
    using verdict_Some [OF that] by auto
  have p4: "a \<in> advertised (algSizes s) \<and> 2 \<le> count_list (map fst ds) a"
    if "digestListVerdict (algSizes s) ds = Some (DuplicateDigest a)" for a
    using verdict_Some [OF that] by auto
  have p5: "a \<in> advertised (algSizes s) \<and> a \<notin> fst ` set ds
               \<and> fst ` set ds \<subseteq> advertised (algSizes s) \<and> distinct (map fst ds)"
    if "digestListVerdict (algSizes s) ds = Some (MissingDigest a)" for a
    using verdict_Some [OF that] by auto
  from p1 p2 p3 p4 p5 show ?thesis by blast
qed

end
